theory Spec2Isabelle
  imports Main
begin

section \<open>The platform: URL objects and the functions the cloner calls\<close>

text \<open>
  The cloner (\<^verbatim>\<open>src/index.js\<close>, class \<^verbatim>\<open>WebsiteCloner\<close>) works on WHATWG URL
  objects, on a cheerio document, on the network (axios), on the file system (fs-extra)
  and on Node's \<^verbatim>\<open>path\<close> module. Of a URL object the code reads \<^verbatim>\<open>href\<close>,
  \<^verbatim>\<open>origin\<close> and \<^verbatim>\<open>pathname\<close>; the query string (\<^verbatim>\<open>search\<close>) and the fragment
  (\<^verbatim>\<open>hash\<close>) are kept in the record to show that nothing reads them.
  A string is the UTF-8 text of the JavaScript string, a list of bytes. Every character
  that the code looks for is one ASCII byte, which in UTF-8 text is never part of another
  character; the white space of \<^verbatim>\<open>trim\<close> and \<^verbatim>\<open>\s\<close> is recognised by its bytes.
\<close>

record URL =
  href :: string
  origin :: string
  pathname :: string
  search :: string
  hash :: string

record element =
  tag :: string
  attrs :: "(string \<times> string) list"

type_synonym document = "element list"

text \<open>
  Everything the code gets from outside is a field of the environment:
  \<^item> \<open>newURL input base\<close> is \<^verbatim>\<open>new URL(input, base)\<close> (\<open>None\<close> for the base when the
    constructor has one argument); \<open>None\<close> as a result is the \<^verbatim>\<open>TypeError\<close> thrown for
    an invalid URL;
  \<^item> \<open>httpGet n u\<close> is \<^verbatim>\<open>axios.get(u, ...)\<close> at time \<open>n\<close>: the body, or \<open>None\<close> when the
    promise rejects (network error, timeout, status outside 2xx);
  \<^item> \<open>canEnsureDir n d\<close> and \<open>canWrite n p\<close> say whether \<^verbatim>\<open>fs.ensureDir(d)\<close> and
    \<^verbatim>\<open>fs.writeFile(p, _)\<close> succeed at time \<open>n\<close>;
  \<^item> \<open>cheerioLoad\<close> and \<open>cheerioHtml\<close> parse and serialise a document (the elements
    in document order);
  \<^item> \<open>pathJoin\<close>, \<open>pathDirname\<close> and \<open>pathRelative\<close> are the functions of Node's
    \<^verbatim>\<open>path\<close> module with these names;
  \<^item> \<open>utf8 b\<close> is the string that \<^verbatim>\<open>fs.readFile(_, 'utf8')\<close> makes of the bytes \<open>b\<close> of a
    file: \<open>b\<close> itself when it is UTF-8 text, with U+FFFD in the place of what is not.
  The network and the disk may answer the same question differently at different times;
  time is counted in the steps of the program (the field \<open>now\<close> of the state below).
\<close>

record env =
  newURL :: "string \<Rightarrow> URL option \<Rightarrow> URL option"
  httpGet :: "nat \<Rightarrow> string \<Rightarrow> string option"
  canEnsureDir :: "nat \<Rightarrow> string \<Rightarrow> bool"
  canWrite :: "nat \<Rightarrow> string \<Rightarrow> bool"
  cheerioLoad :: "string \<Rightarrow> document"
  cheerioHtml :: "document \<Rightarrow> string"
  pathJoin :: "string \<Rightarrow> string \<Rightarrow> string"
  pathDirname :: "string \<Rightarrow> string"
  pathRelative :: "string \<Rightarrow> string \<Rightarrow> string"
  utf8 :: "string \<Rightarrow> string"

subsection \<open>String methods\<close>

definition startsWith :: "string \<Rightarrow> string \<Rightarrow> bool" where
  "startsWith s p = (take (length p) s = p)"

definition endsWith :: "string \<Rightarrow> string \<Rightarrow> bool" where
  "endsWith s p = (length p \<le> length s \<and> drop (length s - length p) s = p)"

definition substring :: "string \<Rightarrow> nat \<Rightarrow> string" where
  "substring s n = drop n s"

definition slice :: "string \<Rightarrow> int \<Rightarrow> int \<Rightarrow> string" where
  "slice s a b = take (nat b - nat a) (drop (nat a) s)"

subsection \<open>\<^verbatim>\<open>path.extname\<close> (Node, POSIX)\<close>

text \<open>
  Node's \<^verbatim>\<open>path.posix.extname\<close> walks the path from its last character to its first,
  with five variables. The loop is a recursion over the reversed path, \<open>i\<close> being the index
  of the head; \<^verbatim>\<open>break\<close> returns the state, \<^verbatim>\<open>continue\<close> is the recursive call.
\<close>

record extState =
  startDot :: int
  startPart :: int
  endIdx :: int
  matchedSlash :: bool
  preDotState :: int

definition extInit :: extState where
  "extInit = \<lparr>startDot = -1, startPart = 0, endIdx = -1, matchedSlash = True, preDotState = 0\<rparr>"

definition extMark :: "int \<Rightarrow> extState \<Rightarrow> extState" where
  "extMark i s = (if endIdx s = -1 then s\<lparr>matchedSlash := False, endIdx := i + 1\<rparr> else s)"

definition extDot :: "char \<Rightarrow> int \<Rightarrow> extState \<Rightarrow> extState" where
  "extDot c i s =
     (if c = CHR ''.'' then
        (if startDot s = -1 then s\<lparr>startDot := i\<rparr>
         else if preDotState s \<noteq> 1 then s\<lparr>preDotState := 1\<rparr> else s)
      else if startDot s \<noteq> -1 then s\<lparr>preDotState := -1\<rparr>
      else s)"

fun extnameLoop :: "string \<Rightarrow> int \<Rightarrow> extState \<Rightarrow> extState" where
  "extnameLoop [] i s = s"
| "extnameLoop (c # cs) i s =
     (if c = CHR ''/'' then
        (if \<not> matchedSlash s then s\<lparr>startPart := i + 1\<rparr>
         else extnameLoop cs (i - 1) s)
      else extnameLoop cs (i - 1) (extDot c i (extMark i s)))"

definition extname :: "string \<Rightarrow> string" where
  "extname path =
     (let s = extnameLoop (rev path) (int (length path) - 1) extInit in
      if startDot s = -1 \<or> endIdx s = -1 \<or> preDotState s = 0 \<or>
         (preDotState s = 1 \<and> startDot s = endIdx s - 1 \<and> startDot s = startPart s + 1)
      then [] else slice path (startDot s) (endIdx s))"

section \<open>The Path Resolver: \<^verbatim>\<open>getLocalPath\<close>\<close>

text \<open>
  \<^verbatim>\<open>getLocalPath(url)\<close> first builds \<^verbatim>\<open>new URL(url)\<close> from its argument (a URL object,
  which the constructor reads through its \<^verbatim>\<open>href\<close>), and then works on the
  \<^verbatim>\<open>pathname\<close> of the result in three assignments. \<open>None\<close> is the exception of the
  constructor.
\<close>

definition stripLeadingSlash :: "string \<Rightarrow> string" where
  "stripLeadingSlash p = (if startsWith p ''/'' then substring p 1 else p)"

definition addIndex :: "string \<Rightarrow> string" where
  "addIndex p = (if p = [] \<or> endsWith p ''/'' then p @ ''index.html'' else p)"

definition addHtml :: "string \<Rightarrow> string" where
  "addHtml p = (if extname p = [] then p @ ''.html'' else p)"

definition getLocalPath :: "env \<Rightarrow> URL \<Rightarrow> string option" where
  "getLocalPath e u =
     (case newURL e (href u) None of
        None \<Rightarrow> None
      | Some urlObj \<Rightarrow> Some (addHtml (addIndex (stripLeadingSlash (pathname urlObj)))))"

section \<open>The cloner object and the world it acts on\<close>

datatype assetType = Css | Js | Img | Asset

text \<open>An entry of \<^verbatim>\<open>assets\<close> in \<^verbatim>\<open>processAssets\<close>; the element is its index in the document.\<close>

record asset =
  assetType :: assetType
  assetUrl :: string
  assetElement :: nat

text \<open>An entry of \<^verbatim>\<open>downloadQueue\<close>.\<close>

record item =
  url :: string
  localPath :: string
  itemType :: assetType

text \<open>The lines written to the console, one constructor for each \<^verbatim>\<open>console.log\<close>.\<close>

datatype logLine =
    LogStarting string
  | LogOutputDir string
  | LogPage string
  | LogPageError string
  | LogInvalidAsset string
  | LogDownloading string
  | LogAssetError string
  | LogCssError string
  | LogCompleted
  | LogSaved string

text \<open>
  A call of \<^verbatim>\<open>downloadAsset\<close> that has started and whose \<^verbatim>\<open>finally\<close> callback has
  not run yet is a task, suspended at one of the \<^verbatim>\<open>await\<close>s of \<^verbatim>\<open>downloadAsset\<close> and
  \<^verbatim>\<open>processCSSFile\<close>, or settled.
\<close>

datatype task =
    AwaitGet item
  | AwaitEnsureDir item string string
  | AwaitWriteFile item string string
  | AwaitReadFile item string
  | AwaitWriteCss item string string
  | Settled

text \<open>Where \<^verbatim>\<open>processDownloadQueue\<close> is: in its loop, at its \<^verbatim>\<open>await\<close>, or returned.\<close>

datatype loopState = Running | Sleeping | Exited

text \<open>
  The first six fields are those of the \<^verbatim>\<open>WebsiteCloner\<close> object. \<open>files\<close> is the file
  system, \<open>requests\<close> the GET requests issued so far, in order, \<open>console\<close> the log;
  \<open>tasks\<close> and \<open>mainLoop\<close> are the control state of the asynchronous functions,
  \<open>now\<close> is the time.
\<close>

record cloner =
  baseUrl :: URL
  outputDir :: string
  downloadedFiles :: "string set"
  downloadQueue :: "item list"
  maxConcurrent :: int
  activeDownloads :: int
  files :: "string \<rightharpoonup> string"
  requests :: "string list"
  console :: "logLine list"
  tasks :: "task list"
  mainLoop :: loopState
  now :: nat

text \<open>The constructor; \<open>fs\<close> is the file system the program starts on.\<close>

definition WebsiteCloner :: "env \<Rightarrow> (string \<rightharpoonup> string) \<Rightarrow> string \<Rightarrow> string \<Rightarrow> cloner option" where
  "WebsiteCloner e fs b out =
     (case newURL e b None of
        None \<Rightarrow> None
      | Some u \<Rightarrow> Some \<lparr>baseUrl = u, outputDir = out, downloadedFiles = {}, downloadQueue = [],
          maxConcurrent = 5, activeDownloads = 0, files = fs, requests = [], console = [],
          tasks = [], mainLoop = Running, now = 0\<rparr>)"

section \<open>The Asset Extractor and the Rewriter\<close>

subsection \<open>cheerio\<close>

definition attr :: "element \<Rightarrow> string \<Rightarrow> string option" where
  "attr el name = map_of (attrs el) name"

fun setAttrList :: "string \<Rightarrow> string \<Rightarrow> (string \<times> string) list \<Rightarrow> (string \<times> string) list" where
  "setAttrList k v [] = [(k, v)]"
| "setAttrList k v ((k', v') # kvs) =
     (if k' = k then (k, v) # kvs else (k', v') # setAttrList k v kvs)"

definition setAttr :: "string \<Rightarrow> string \<Rightarrow> element \<Rightarrow> element" where
  "setAttr k v el = el\<lparr>attrs := setAttrList k v (attrs el)\<rparr>"

text \<open>A selector gives the indices of the elements it matches, in document order.\<close>

definition select :: "(element \<Rightarrow> bool) \<Rightarrow> document \<Rightarrow> nat list" where
  "select P doc = filter (\<lambda>i. P (doc ! i)) [0..<length doc]"

definition hasAttr :: "element \<Rightarrow> string \<Rightarrow> bool" where
  "hasAttr el name = (attr el name \<noteq> None)"

text \<open>\<^verbatim>\<open>if (x)\<close> on a string that may be undefined.\<close>

definition truthy :: "string option \<Rightarrow> bool" where
  "truthy x = (case x of None \<Rightarrow> False | Some v \<Rightarrow> v \<noteq> [])"

subsection \<open>\<^verbatim>\<open>split\<close> and \<^verbatim>\<open>trim\<close>\<close>

fun split :: "char \<Rightarrow> string \<Rightarrow> string list" where
  "split c [] = [[]]"
| "split c (x # xs) =
     (if x = c then [] # split c xs
      else (case split c xs of [] \<Rightarrow> [[x]] | w # ws \<Rightarrow> (x # w) # ws))"

text \<open>
  The white space of \<^verbatim>\<open>trim\<close> and of \<^verbatim>\<open>\s\<close> (\<^verbatim>\<open>WhiteSpace\<close> and \<^verbatim>\<open>LineTerminator\<close> of
  ECMAScript): U+0009 to U+000D, U+0020, U+00A0, U+1680, U+2000 to U+200A, U+2028, U+2029,
  U+202F, U+205F, U+3000 and U+FEFF, each as its UTF-8 bytes. \<open>spaceAt s\<close> is the number
  of bytes of the white space character that \<open>s\<close> begins with, 0 when it begins with
  none; \<open>spaceEnd s\<close> is the same for the character that \<open>s\<close> ends with.
\<close>

definition whiteSpace :: "string list" where
  "whiteSpace =
     [[CHR 0x09], [CHR 0x0A], [CHR 0x0B], [CHR 0x0C], [CHR 0x0D], [CHR 0x20],
      [CHR 0xC2, CHR 0xA0], [CHR 0xE1, CHR 0x9A, CHR 0x80],
      [CHR 0xE2, CHR 0x80, CHR 0x80], [CHR 0xE2, CHR 0x80, CHR 0x81],
      [CHR 0xE2, CHR 0x80, CHR 0x82], [CHR 0xE2, CHR 0x80, CHR 0x83],
      [CHR 0xE2, CHR 0x80, CHR 0x84], [CHR 0xE2, CHR 0x80, CHR 0x85],
      [CHR 0xE2, CHR 0x80, CHR 0x86], [CHR 0xE2, CHR 0x80, CHR 0x87],
      [CHR 0xE2, CHR 0x80, CHR 0x88], [CHR 0xE2, CHR 0x80, CHR 0x89],
      [CHR 0xE2, CHR 0x80, CHR 0x8A], [CHR 0xE2, CHR 0x80, CHR 0xA8],
      [CHR 0xE2, CHR 0x80, CHR 0xA9], [CHR 0xE2, CHR 0x80, CHR 0xAF],
      [CHR 0xE2, CHR 0x81, CHR 0x9F], [CHR 0xE3, CHR 0x80, CHR 0x80],
      [CHR 0xEF, CHR 0xBB, CHR 0xBF]]"

definition spaceAt :: "string \<Rightarrow> nat" where
  "spaceAt s = (case find (startsWith s) whiteSpace of None \<Rightarrow> 0 | Some w \<Rightarrow> length w)"

definition spaceEnd :: "string \<Rightarrow> nat" where
  "spaceEnd s = (case find (endsWith s) whiteSpace of None \<Rightarrow> 0 | Some w \<Rightarrow> length w)"

fun trimStart :: "string \<Rightarrow> string" where
  "trimStart [] = []"
| "trimStart (c # cs) =
     (if 0 < spaceAt (c # cs) then trimStart (drop (spaceAt (c # cs)) (c # cs)) else c # cs)"

fun trimEnd :: "string \<Rightarrow> string" where
  "trimEnd [] = []"
| "trimEnd (c # cs) =
     (if 0 < spaceEnd (c # cs)
      then trimEnd (take (length (c # cs) - spaceEnd (c # cs)) (c # cs)) else c # cs)"

definition trim :: "string \<Rightarrow> string" where
  "trim s = trimEnd (trimStart s)"

text \<open>\<^verbatim>\<open>srcset.split(',').map(s => s.trim().split(' ')[0])\<close>\<close>

definition srcsetUrls :: "string \<Rightarrow> string list" where
  "srcsetUrls srcset = map (\<lambda>s. hd (split CHR '' '' (trim s))) (split CHR '','' srcset)"

subsection \<open>\<^verbatim>\<open>processAssets\<close>, \<^verbatim>\<open>updateAssetReference\<close>, \<^verbatim>\<open>rewriteLinks\<close>\<close>

definition attrAssets :: "assetType \<Rightarrow> string \<Rightarrow> document \<Rightarrow> nat list \<Rightarrow> asset list" where
  "attrAssets t name doc idx =
     concat (map (\<lambda>i. if truthy (attr (doc ! i) name)
                       then [\<lparr>assetType = t, assetUrl = the (attr (doc ! i) name), assetElement = i\<rparr>]
                       else []) idx)"

definition srcsetAssets :: "document \<Rightarrow> nat list \<Rightarrow> asset list" where
  "srcsetAssets doc idx =
     concat (map (\<lambda>i. if truthy (attr (doc ! i) ''srcset'')
                       then map (\<lambda>u. \<lparr>assetType = Img, assetUrl = u, assetElement = i\<rparr>)
                              (filter (\<lambda>u. u \<noteq> []) (srcsetUrls (the (attr (doc ! i) ''srcset''))))
                       else []) idx)"

text \<open>
  The selector \<^verbatim>\<open>link[rel="stylesheet"]\<close>: in an HTML document the value of \<^verbatim>\<open>rel\<close> is
  compared without regard to case (letters of ASCII here).
\<close>

definition toLowerCase :: "string \<Rightarrow> string" where
  "toLowerCase s =
     map (\<lambda>c. case map_of (zip ''ABCDEFGHIJKLMNOPQRSTUVWXYZ'' ''abcdefghijklmnopqrstuvwxyz'') c of
                None \<Rightarrow> c | Some l \<Rightarrow> l) s"

definition relStylesheet :: "element \<Rightarrow> bool" where
  "relStylesheet el =
     (case attr el ''rel'' of None \<Rightarrow> False | Some v \<Rightarrow> toLowerCase v = ''stylesheet'')"

text \<open>The four \<^verbatim>\<open>each\<close> loops that fill \<^verbatim>\<open>assets\<close>.\<close>

definition findAssets :: "document \<Rightarrow> asset list" where
  "findAssets doc =
     attrAssets Css ''href'' doc (select (\<lambda>el. tag el = ''link'' \<and> relStylesheet el) doc)
     @ attrAssets Js ''src'' doc (select (\<lambda>el. tag el = ''script'' \<and> hasAttr el ''src'') doc)
     @ attrAssets Img ''src'' doc (select (\<lambda>el. tag el = ''img'' \<and> hasAttr el ''src'') doc)
     @ srcsetAssets doc (select (\<lambda>el. tag el = ''img'' \<and> hasAttr el ''srcset'') doc)"

definition updateAssetReference :: "document \<Rightarrow> asset \<Rightarrow> string \<Rightarrow> document" where
  "updateAssetReference doc a lp =
     (let relativePath = ''./'' @ lp; i = assetElement a in
      if assetType a = Css then doc[i := setAttr ''href'' relativePath (doc ! i)]
      else if assetType a = Js then doc[i := setAttr ''src'' relativePath (doc ! i)]
      else if assetType a = Img then doc[i := setAttr ''src'' relativePath (doc ! i)]
      else doc)"

text \<open>
  The body of the \<^verbatim>\<open>for\<close> loop of \<^verbatim>\<open>processAssets\<close>: an exception of \<^verbatim>\<open>new URL\<close> or of
  \<^verbatim>\<open>getLocalPath\<close> is caught inside the loop and logged.
\<close>

definition invalidAsset :: "asset \<Rightarrow> document \<times> cloner \<Rightarrow> document \<times> cloner" where
  "invalidAsset a = (\<lambda>(doc, s). (doc, s\<lparr>console := console s @ [LogInvalidAsset (assetUrl a)]\<rparr>))"

definition assetStep :: "env \<Rightarrow> URL \<Rightarrow> asset \<Rightarrow> document \<times> cloner \<Rightarrow> document \<times> cloner" where
  "assetStep e basePageUrl a = (\<lambda>(doc, s).
     case newURL e (assetUrl a) (Some basePageUrl) of
       None \<Rightarrow> invalidAsset a (doc, s)
     | Some u \<Rightarrow>
        (case getLocalPath e u of
           None \<Rightarrow> invalidAsset a (doc, s)
         | Some lp \<Rightarrow>
            (updateAssetReference doc a lp,
             if href u \<notin> downloadedFiles s
             then s\<lparr>downloadQueue := downloadQueue s
                      @ [\<lparr>url = href u, localPath = lp, itemType = assetType a\<rparr>]\<rparr>
             else s)))"

definition assetLoop :: "env \<Rightarrow> URL \<Rightarrow> asset list \<Rightarrow> document \<times> cloner \<Rightarrow> document \<times> cloner" where
  "assetLoop e basePageUrl as = fold (assetStep e basePageUrl) as"

text \<open>\<open>None\<close>: \<^verbatim>\<open>new URL(pageUrl)\<close> threw, which \<^verbatim>\<open>processAssets\<close> does not catch.\<close>

definition processAssets :: "env \<Rightarrow> document \<Rightarrow> string \<Rightarrow> cloner \<Rightarrow> (document \<times> cloner) option" where
  "processAssets e doc pageUrl s =
     (case newURL e pageUrl None of
        None \<Rightarrow> None
      | Some basePageUrl \<Rightarrow> Some (assetLoop e basePageUrl (findAssets doc) (doc, s)))"

definition linkStep :: "env \<Rightarrow> URL \<Rightarrow> cloner \<Rightarrow> nat \<Rightarrow> document \<Rightarrow> document" where
  "linkStep e basePageUrl s i doc =
     (let h = attr (doc ! i) ''href'' in
      if truthy h \<and> \<not> startsWith (the h) ''#'' \<and> \<not> startsWith (the h) ''mailto:''
         \<and> \<not> startsWith (the h) ''tel:''
      then (case newURL e (the h) (Some basePageUrl) of
              None \<Rightarrow> doc
            | Some linkUrl \<Rightarrow>
               if origin linkUrl = origin (baseUrl s)
               then (case getLocalPath e linkUrl of
                       None \<Rightarrow> doc
                     | Some lp \<Rightarrow> doc[i := setAttr ''href'' (''./'' @ lp) (doc ! i)])
               else doc)
      else doc)"

definition rewriteLinks :: "env \<Rightarrow> document \<Rightarrow> string \<Rightarrow> cloner \<Rightarrow> document option" where
  "rewriteLinks e doc pageUrl s =
     (case newURL e pageUrl None of
        None \<Rightarrow> None
      | Some basePageUrl \<Rightarrow>
          Some (fold (linkStep e basePageUrl s)
                  (select (\<lambda>el. tag el = ''a'' \<and> hasAttr el ''href'') doc) doc))"

section \<open>The Stylesheet Asset Extractor: \<^verbatim>\<open>processCSSFile\<close>\<close>

subsection \<open>The regular expression\<close>

text \<open>
  \<^verbatim>\<open>/url\(['"]?([^'")\s]+)['"]?\)/g\<close>. After \<^verbatim>\<open>url(\<close> an optional quote is taken when
  there is one, the group is the longest run of characters that are no quote, no
  \<^verbatim>\<open>)\<close> and no white space (\<open>urlRun\<close>: it ends where a quote, a \<^verbatim>\<open>)\<close> or a white
  space character begins) and must not be empty, then again an optional quote, then
  \<^verbatim>\<open>)\<close>. No other way of matching exists at a position: a quote that is skipped, or a
  shorter group, is followed by a character that neither the group nor what follows
  the group accepts. \<open>matchAt\<close> gives \<^verbatim>\<open>match[0]\<close>, \<^verbatim>\<open>match[1]\<close> and the text after
  the match.
\<close>

definition isQuote :: "char \<Rightarrow> bool" where
  "isQuote c = (c = CHR 0x27 \<or> c = CHR 0x22)"

fun urlRun :: "string \<Rightarrow> string" where
  "urlRun [] = []"
| "urlRun (c # cs) =
     (if isQuote c \<or> c = CHR '')'' \<or> 0 < spaceAt (c # cs) then [] else c # urlRun cs)"

definition optQuote :: "string \<Rightarrow> string \<times> string" where
  "optQuote s = (case s of [] \<Rightarrow> ([], []) | c # cs \<Rightarrow> if isQuote c then ([c], cs) else ([], s))"

definition matchAt :: "string \<Rightarrow> (string \<times> string \<times> string) option" where
  "matchAt s =
     (if startsWith s ''url('' then
        (let (q1, s2) = optQuote (drop 4 s);
             g = urlRun s2;
             (q2, s4) = optQuote (drop (length g) s2)
         in if g \<noteq> [] \<and> startsWith s4 '')''
            then Some (''url('' @ q1 @ g @ q2 @ '')'', g, drop 1 s4)
            else None)
      else None)"

text \<open>
  The \<^verbatim>\<open>while ((match = urlRegex.exec(cssContent)) !== null)\<close> loop sees the matches
  from left to right, each search starting where the last match ended.
\<close>

function cssMatches :: "string \<Rightarrow> (string \<times> string) list" where
  "cssMatches [] = []"
| "cssMatches (c # cs) =
     (case matchAt (c # cs) of
        None \<Rightarrow> cssMatches cs
      | Some (m0, g, rest) \<Rightarrow> (m0, g) # cssMatches rest)"
  by pat_completeness auto
termination
proof (relation "measure length")
  show "wf (measure length)" by simp
next
  fix c :: char and cs :: string
  show "(cs, c # cs) \<in> measure length" by simp
next
  fix c :: char and cs x2 :: string and x y :: "string \<times> string" and xa ya :: string
  fix m :: "string \<times> string \<times> string"
  assume m: "matchAt (c # cs) = Some m" and x: "(x2, y) = m" "(xa, ya) = y"
  from m have "ya = drop 1 (snd (optQuote (drop (length (urlRun (snd (optQuote (drop 4 (c # cs))))))
      (snd (optQuote (drop 4 (c # cs)))))))"
    using x by (auto simp: matchAt_def Let_def split: if_splits prod.splits)
  moreover have "\<And>s. length (snd (optQuote s)) \<le> length s"
    by (simp add: optQuote_def split: list.splits)
  moreover have "\<And>n s. length (drop n s) \<le> length (s :: string)"
    by simp
  moreover from m have "startsWith (c # cs) ''url(''"
    by (auto simp: matchAt_def split: if_splits)
  then have "4 \<le> length (c # cs)"
    by (auto simp: startsWith_def dest: arg_cong [where f = length])
  ultimately have "length ya \<le> length (c # cs) - 4"
    by (metis (no_types, lifting) diff_le_self length_drop order_trans)
  with \<open>4 \<le> length (c # cs)\<close> show "(ya, c # cs) \<in> measure length" by simp
qed

subsection \<open>\<^verbatim>\<open>String.prototype.replace\<close> with a string pattern\<close>

text \<open>
  The first occurrence of the pattern is replaced; in the replacement text
  \<^verbatim>\<open>$$\<close> stands for \<^verbatim>\<open>$\<close>, \<^verbatim>\<open>$&\<close> for the matched text, \<^verbatim>\<open>$`\<close> for the text before
  the match and \<^verbatim>\<open>$'\<close> for the text after it (there are no captures).
\<close>

fun getSubstitution :: "string \<Rightarrow> string \<Rightarrow> string \<Rightarrow> string \<Rightarrow> string" where
  "getSubstitution matched pre post (c # d # r) =
     (if c = CHR ''$'' \<and> d = CHR ''$'' then CHR ''$'' # getSubstitution matched pre post r
      else if c = CHR ''$'' \<and> d = CHR ''&'' then matched @ getSubstitution matched pre post r
      else if c = CHR ''$'' \<and> d = CHR 0x60 then pre @ getSubstitution matched pre post r
      else if c = CHR ''$'' \<and> d = CHR 0x27 then post @ getSubstitution matched pre post r
      else c # getSubstitution matched pre post (d # r))"
| "getSubstitution matched pre post r = r"

fun findFirst :: "string \<Rightarrow> string \<Rightarrow> (string \<times> string) option" where
  "findFirst pat [] = (if pat = [] then Some ([], []) else None)"
| "findFirst pat (c # cs) =
     (if startsWith (c # cs) pat then Some ([], drop (length pat) (c # cs))
      else map_option (\<lambda>(b, a). (c # b, a)) (findFirst pat cs))"

definition replace :: "string \<Rightarrow> string \<Rightarrow> string \<Rightarrow> string" where
  "replace text pat repl =
     (case findFirst pat text of
        None \<Rightarrow> text
      | Some (b, a) \<Rightarrow> b @ getSubstitution pat b a repl @ a)"

text \<open>\<^verbatim>\<open>relativePath.replace(/\\/g, '/')\<close>\<close>

definition slashes :: "string \<Rightarrow> string" where
  "slashes p = map (\<lambda>c. if c = CHR 0x5C then CHR ''/'' else c) p"

subsection \<open>The body of the loop\<close>

text \<open>
  \<open>relativeRef\<close> is the text that replaces \<^verbatim>\<open>match[0]\<close>. In \<open>cssStep\<close> the pair is
  \<^verbatim>\<open>updatedCSS\<close> and the cloner; an exception of \<^verbatim>\<open>new URL\<close> or \<^verbatim>\<open>getLocalPath\<close> is
  caught inside the loop, and the reference is left as it is.
\<close>

definition relativeRef :: "env \<Rightarrow> string \<Rightarrow> string \<Rightarrow> string \<Rightarrow> string" where
  "relativeRef e filePath out lp =
     ''url('' @ [CHR 0x22]
       @ slashes (pathRelative e (pathDirname e filePath) (pathJoin e out lp))
       @ [CHR 0x22] @ '')''"

definition cssStep :: "env \<Rightarrow> URL \<Rightarrow> string \<Rightarrow> string \<times> string \<Rightarrow> string \<times> cloner \<Rightarrow> string \<times> cloner" where
  "cssStep e cssBaseUrl filePath m = (\<lambda>(updatedCSS, s).
     case newURL e (snd m) (Some cssBaseUrl) of
       None \<Rightarrow> (updatedCSS, s)
     | Some fullAssetUrl \<Rightarrow>
        (case getLocalPath e fullAssetUrl of
           None \<Rightarrow> (updatedCSS, s)
         | Some lp \<Rightarrow>
            (replace updatedCSS (fst m) (relativeRef e filePath (outputDir s) lp),
             if href fullAssetUrl \<notin> downloadedFiles s
             then s\<lparr>downloadQueue := downloadQueue s
                      @ [\<lparr>url = href fullAssetUrl, localPath = lp, itemType = Asset\<rparr>]\<rparr>
             else s)))"

definition cssLoop :: "env \<Rightarrow> URL \<Rightarrow> string \<Rightarrow> (string \<times> string) list \<Rightarrow> string \<times> cloner \<Rightarrow> string \<times> cloner" where
  "cssLoop e cssBaseUrl filePath ms = fold (cssStep e cssBaseUrl filePath) ms"

text \<open>
  \<^verbatim>\<open>processCSSFile\<close> between its two \<^verbatim>\<open>await\<close>s, from the text that \<^verbatim>\<open>readFile\<close> gave
  to the text that \<^verbatim>\<open>writeFile\<close> gets. \<open>None\<close>: \<^verbatim>\<open>new URL(cssUrl)\<close> threw, which the
  \<^verbatim>\<open>catch\<close> of \<^verbatim>\<open>processCSSFile\<close> logs.
\<close>

definition rewriteCSS :: "env \<Rightarrow> string \<Rightarrow> string \<Rightarrow> string \<Rightarrow> cloner \<Rightarrow> (string \<times> cloner) option" where
  "rewriteCSS e filePath cssUrl cssContent s =
     (case newURL e cssUrl None of
        None \<Rightarrow> None
      | Some cssBaseUrl \<Rightarrow>
          Some (cssLoop e cssBaseUrl filePath (cssMatches cssContent) (cssContent, s)))"

section \<open>The Download Scheduler\<close>

subsection \<open>\<^verbatim>\<open>downloadAsset\<close>\<close>

text \<open>
  \<open>downloadAssetStart\<close> is \<^verbatim>\<open>downloadAsset\<close> from its call to its first \<^verbatim>\<open>await\<close>, which
  runs inside the loop of \<^verbatim>\<open>processDownloadQueue\<close>: either the early \<^verbatim>\<open>return\<close>, or the
  GET request is issued. \<open>resume\<close> is what task \<open>k\<close> does when the operation it awaits
  has finished, up to its next \<^verbatim>\<open>await\<close>. A settled task resumes with the \<^verbatim>\<open>finally\<close>
  callback.
\<close>

definition downloadAssetStart :: "item \<Rightarrow> cloner \<Rightarrow> cloner" where
  "downloadAssetStart it s =
     (if url it \<in> downloadedFiles s then s\<lparr>tasks := tasks s @ [Settled]\<rparr>
      else s\<lparr>console := console s @ [LogDownloading (url it)],
             requests := requests s @ [url it],
             tasks := tasks s @ [AwaitGet it]\<rparr>)"

definition assetFailed :: "nat \<Rightarrow> item \<Rightarrow> cloner \<Rightarrow> cloner" where
  "assetFailed k it s =
     s\<lparr>console := console s @ [LogAssetError (url it)], tasks := (tasks s)[k := Settled]\<rparr>"

definition cssFailed :: "nat \<Rightarrow> string \<Rightarrow> cloner \<Rightarrow> cloner" where
  "cssFailed k filePath s =
     s\<lparr>console := console s @ [LogCssError filePath], tasks := (tasks s)[k := Settled]\<rparr>"

fun resume :: "env \<Rightarrow> nat \<Rightarrow> task \<Rightarrow> cloner \<Rightarrow> cloner" where
  "resume e k (AwaitGet it) s =
     (case httpGet e (now s) (url it) of
        None \<Rightarrow> assetFailed k it s
      | Some data \<Rightarrow>
          s\<lparr>tasks := (tasks s)[k := AwaitEnsureDir it (pathJoin e (outputDir s) (localPath it)) data]\<rparr>)"
| "resume e k (AwaitEnsureDir it filePath data) s =
     (if canEnsureDir e (now s) (pathDirname e filePath)
      then s\<lparr>tasks := (tasks s)[k := AwaitWriteFile it filePath data]\<rparr>
      else assetFailed k it s)"
| "resume e k (AwaitWriteFile it filePath data) s =
     (if canWrite e (now s) filePath
      then s\<lparr>files := (files s)(filePath \<mapsto> data),
             downloadedFiles := insert (url it) (downloadedFiles s),
             tasks := (tasks s)[k := if itemType it = Css then AwaitReadFile it filePath else Settled]\<rparr>
      else assetFailed k it s)"
| "resume e k (AwaitReadFile it filePath) s =
     (case files s filePath of
        None \<Rightarrow> cssFailed k filePath s
      | Some bytes \<Rightarrow>
         (case rewriteCSS e filePath (url it) (utf8 e bytes) s of
            None \<Rightarrow> cssFailed k filePath s
          | Some (updatedCSS, s') \<Rightarrow>
              s'\<lparr>tasks := (tasks s')[k := AwaitWriteCss it filePath updatedCSS]\<rparr>))"
| "resume e k (AwaitWriteCss it filePath updatedCSS) s =
     (if canWrite e (now s) filePath
      then s\<lparr>files := (files s)(filePath \<mapsto> updatedCSS), tasks := (tasks s)[k := Settled]\<rparr>
      else cssFailed k filePath s)"
| "resume e k Settled s =
     s\<lparr>activeDownloads := activeDownloads s - 1,
       tasks := take k (tasks s) @ drop (Suc k) (tasks s)\<rparr>"

subsection \<open>\<^verbatim>\<open>processDownloadQueue\<close>\<close>

text \<open>
  One evaluation of the \<^verbatim>\<open>while\<close> condition and of the body: a download is started, or
  the loop goes to its \<^verbatim>\<open>await\<close>, or it ends.
\<close>

definition loopIteration :: "cloner \<Rightarrow> cloner" where
  "loopIteration s =
     (if downloadQueue s \<noteq> [] \<or> activeDownloads s > 0 then
        (if downloadQueue s \<noteq> [] \<and> activeDownloads s < maxConcurrent s
         then downloadAssetStart (hd (downloadQueue s))
                (s\<lparr>downloadQueue := tl (downloadQueue s),
                   activeDownloads := activeDownloads s + 1\<rparr>)
         else s\<lparr>mainLoop := Sleeping\<rparr>)
      else s\<lparr>mainLoop := Exited\<rparr>)"

text \<open>
  JavaScript runs one piece of code at a time, to its next \<^verbatim>\<open>await\<close>. The loop runs its
  iterations one after the other until it sleeps (\<open>Loop\<close>); while it sleeps, the timer
  may fire (\<open>Timer\<close>) and any task may resume (\<open>Resume k\<close>), in any order: which one is
  next is the schedule, a list of events. \<open>None\<close>: the event cannot happen in this state.
  Every event takes one unit of time.
\<close>

datatype event = Loop | Timer | Resume nat

definition tick :: "cloner \<Rightarrow> cloner" where
  "tick s = s\<lparr>now := now s + 1\<rparr>"

fun step :: "env \<Rightarrow> event \<Rightarrow> cloner \<Rightarrow> cloner option" where
  "step e Loop s = (if mainLoop s = Running then Some (tick (loopIteration s)) else None)"
| "step e Timer s = (if mainLoop s = Sleeping then Some (tick (s\<lparr>mainLoop := Running\<rparr>)) else None)"
| "step e (Resume k) s =
     (if mainLoop s = Sleeping \<and> k < length (tasks s)
      then Some (tick (resume e k (tasks s ! k) s)) else None)"

fun run :: "env \<Rightarrow> event list \<Rightarrow> cloner \<Rightarrow> cloner option" where
  "run e [] s = Some s"
| "run e (ev # evs) s = (case step e ev s of None \<Rightarrow> None | Some s' \<Rightarrow> run e evs s')"

section \<open>The Orchestrator: \<^verbatim>\<open>downloadPage\<close> and \<^verbatim>\<open>clone\<close>\<close>

text \<open>
  \<^verbatim>\<open>downloadPage\<close> is awaited by \<^verbatim>\<open>clone\<close> before the queue is processed, so nothing
  runs between its steps. Every exception in it reaches its own \<^verbatim>\<open>catch\<close>, which logs.
\<close>

definition pageFailed :: "string \<Rightarrow> cloner \<Rightarrow> cloner" where
  "pageFailed pageUrl s = s\<lparr>console := console s @ [LogPageError pageUrl]\<rparr>"

definition downloadPage :: "env \<Rightarrow> string \<Rightarrow> string \<Rightarrow> cloner \<Rightarrow> cloner" where
  "downloadPage e pageUrl filename s =
     (let s0 = s\<lparr>console := console s @ [LogPage pageUrl], requests := requests s @ [pageUrl]\<rparr> in
      case httpGet e (now s) pageUrl of
        None \<Rightarrow> pageFailed pageUrl s0
      | Some data \<Rightarrow>
         (case processAssets e (cheerioLoad e data) pageUrl s0 of
            None \<Rightarrow> pageFailed pageUrl s0
          | Some (doc1, s1) \<Rightarrow>
             (case rewriteLinks e doc1 pageUrl s1 of
                None \<Rightarrow> pageFailed pageUrl s1
              | Some doc2 \<Rightarrow>
                 (let filePath = pathJoin e (outputDir s1) filename in
                  if canEnsureDir e (now s) (pathDirname e filePath) \<and> canWrite e (now s) filePath
                  then s1\<lparr>files := (files s1)(filePath \<mapsto> cheerioHtml e doc2),
                          downloadedFiles := insert pageUrl (downloadedFiles s1)\<rparr>
                  else pageFailed pageUrl s1))))"

text \<open>
  \<^verbatim>\<open>clone\<close> up to its call of \<^verbatim>\<open>processDownloadQueue\<close>, when the output directory can
  be made: \<^verbatim>\<open>ensureDir\<close> takes one unit of time, \<^verbatim>\<open>downloadPage\<close> another.
\<close>

definition beforeQueue :: "env \<Rightarrow> cloner \<Rightarrow> cloner" where
  "beforeQueue e s =
     tick (downloadPage e (href (baseUrl s)) ''index.html''
       (tick (s\<lparr>console := console s
                 @ [LogStarting (href (baseUrl s)), LogOutputDir (outputDir s)]\<rparr>)))"

text \<open>
  The promise of \<^verbatim>\<open>clone\<close>: rejected when \<^verbatim>\<open>fs.ensureDir(this.outputDir)\<close> throws (nothing
  else in \<^verbatim>\<open>clone\<close> can), resolved when \<^verbatim>\<open>processDownloadQueue\<close> has returned, pending
  as long as it has not. \<open>None\<close>: the schedule is not one of this program.
\<close>

datatype outcome = Resolved | Rejected | Pending

definition clone :: "env \<Rightarrow> event list \<Rightarrow> cloner \<Rightarrow> (outcome \<times> cloner) option" where
  "clone e evs s =
     (if \<not> canEnsureDir e (now s) (outputDir s)
      then Some (Rejected, s\<lparr>console := console s
                   @ [LogStarting (href (baseUrl s)), LogOutputDir (outputDir s)]\<rparr>)
      else (case run e evs (beforeQueue e s) of
              None \<Rightarrow> None
            | Some s1 \<Rightarrow>
               if mainLoop s1 = Exited
               then Some (Resolved, s1\<lparr>console := console s1 @ [LogCompleted, LogSaved (outputDir s1)]\<rparr>)
               else Some (Pending, s1)))"

text \<open>A task that waits for the answer to its GET request.\<close>

fun fetching :: "task \<Rightarrow> bool" where
  "fetching (AwaitGet it) = True"
| "fetching t = False"

text \<open>The URL a task downloads, as long as the task has not settled.\<close>

fun taskUrl :: "task \<Rightarrow> string option" where
  "taskUrl (AwaitGet it) = Some (url it)"
| "taskUrl (AwaitEnsureDir it filePath data) = Some (url it)"
| "taskUrl (AwaitWriteFile it filePath data) = Some (url it)"
| "taskUrl (AwaitReadFile it filePath) = Some (url it)"
| "taskUrl (AwaitWriteCss it filePath updatedCSS) = Some (url it)"
| "taskUrl Settled = None"

text \<open>How many more times a task resumes, at most, until its \<^verbatim>\<open>finally\<close> callback has run.\<close>

fun stepsLeft :: "task \<Rightarrow> nat" where
  "stepsLeft (AwaitGet it) = 6"
| "stepsLeft (AwaitEnsureDir it filePath data) = 5"
| "stepsLeft (AwaitWriteFile it filePath data) = 4"
| "stepsLeft (AwaitReadFile it filePath) = 3"
| "stepsLeft (AwaitWriteCss it filePath updatedCSS) = 2"
| "stepsLeft Settled = 1"

section \<open>The Path Resolver as the specification words it\<close>

text \<open>
  Take the path component; strip a leading separator; when the result is empty or ends
  in a separator, append the default document name; when the name then has no
  extension, append \<^verbatim>\<open>.html\<close>.
\<close>

fun stripSeparator :: "string \<Rightarrow> string" where
  "stripSeparator [] = []"
| "stripSeparator (c # cs) = (if c = CHR ''/'' then cs else c # cs)"

definition resolveSpec :: "string \<Rightarrow> string" where
  "resolveSpec path =
     (let p = stripSeparator path;
          d = (if p = [] then ''index.html''
               else if last p = CHR ''/'' then p @ ''index.html'' else p)
      in if extname d = [] then d @ ''.html'' else d)"

section \<open>The rewritten stylesheet as the specification words it\<close>






section \<open>A test bench\<close>

text \<open>
  A site \<^verbatim>\<open>https://ex.test\<close> to run the cloner on. \<open>exNewURL\<close> answers as the URL
  constructor does for the inputs listed: the absolute ones whatever the base, the
  relative ones against a base in the root directory of the site or against the
  stylesheet \<^verbatim>\<open>/css/s.css\<close>; \<^verbatim>\<open>http://\<close> is not a URL, with or without a base. The path
  functions answer as Node's do on the paths of the runs below: \<^verbatim>\<open>out\<close> joined with a
  relative path, the directory of such a path, a file below a directory relative to
  that directory, and a file below \<^verbatim>\<open>out\<close> relative to \<^verbatim>\<open>out/css\<close>. Every file of the site
  is UTF-8 text.
\<close>

definition exUrl :: "string \<Rightarrow> string \<Rightarrow> string \<Rightarrow> URL" where
  "exUrl p q f = \<lparr>href = ''https://ex.test'' @ p @ q @ f, origin = ''https://ex.test'',
                 pathname = p, search = q, hash = f\<rparr>"

definition exNewURL :: "string \<Rightarrow> URL option \<Rightarrow> URL option" where
  "exNewURL input base =
     (case map_of
        [(''https://ex.test/'', exUrl ''/'' [] []),
         (''https://ex.test/s.css'', exUrl ''/s.css'' [] []),
         (''https://ex.test/pic.png'', exUrl ''/pic.png'' [] []),
         (''https://ex.test/bg.png'', exUrl ''/bg.png'' [] []),
         (''https://ex.test/big.png'', exUrl ''/big.png'' [] []),
         (''https://ex.test/css/s.css'', exUrl ''/css/s.css'' [] []),
         (''https://ex.test/css/x.png'', exUrl ''/css/x.png'' [] []),
         (''https://ex.test/img/bg.png'', exUrl ''/img/bg.png'' [] []),
         (''https://ex.test//a.png'', exUrl ''//a.png'' [] []),
         (''https://ex.test/a/b'', exUrl ''/a/b'' [] []),
         (''https://ex.test/a/b?x=1#top'', exUrl ''/a/b'' ''?x=1'' ''#top'')] input of
        Some u \<Rightarrow> Some u
      | None \<Rightarrow>
         if base = Some (exUrl ''/'' [] []) \<or> base = Some (exUrl ''/s.css'' [] [])
         then map_of
           [(''/s.css'', exUrl ''/s.css'' [] []),
            (''/css/s.css'', exUrl ''/css/s.css'' [] []),
            (''pic.png'', exUrl ''/pic.png'' [] []),
            (''bg.png'', exUrl ''/bg.png'' [] []),
            (''big.png'', exUrl ''/big.png'' [] [])] input
         else if base = Some (exUrl ''/css/s.css'' [] [])
         then map_of
           [(''/img/bg.png'', exUrl ''/img/bg.png'' [] []),
            (''x.png'', exUrl ''/css/x.png'' [] [])] input
         else None)"

definition exJoin :: "string \<Rightarrow> string \<Rightarrow> string" where
  "exJoin a b = a @ ''/'' @ b"

definition exDirname :: "string \<Rightarrow> string" where
  "exDirname p = rev (drop 1 (dropWhile (\<lambda>c. c \<noteq> CHR ''/'') (rev p)))"

definition exRelative :: "string \<Rightarrow> string \<Rightarrow> string" where
  "exRelative a b =
     (if startsWith b (a @ ''/'') then drop (length a + 1) b
      else if a = ''out/css'' \<and> startsWith b ''out/'' then ''../'' @ drop 4 b
      else b)"

definition exRender :: "document \<Rightarrow> string" where
  "exRender doc =
     concat (map (\<lambda>el. ''<'' @ tag el
                        @ concat (map (\<lambda>(k, v). '' '' @ k @ ''='' @ v) (attrs el)) @ ''>'') doc)"

definition exLink :: element where
  "exLink = \<lparr>tag = ''link'', attrs = [(''rel'', ''stylesheet''), (''href'', ''/s.css'')]\<rparr>"

definition exImg :: "string \<Rightarrow> element" where
  "exImg src = \<lparr>tag = ''img'', attrs = [(''src'', src)]\<rparr>"

definition exImgSet :: element where
  "exImgSet = \<lparr>tag = ''img'', attrs = [(''src'', ''pic.png''), (''srcset'', ''big.png 2x'')]\<rparr>"

text \<open>
  The pages: the one of the end-to-end scenario (a stylesheet and an image), one with
  the same image twice, one with a responsive image, one whose first image has an
  invalid URL, one with a hyperlink that is no URL, one whose stylesheet is in a
  directory of its own.
\<close>

definition exPage :: string where
  "exPage = ''<link rel=stylesheet href=/s.css><img src=pic.png>''"

definition exPageTwice :: string where
  "exPageTwice = ''<img src=pic.png><img src=pic.png>''"

definition exPageSrcset :: string where
  "exPageSrcset = ''<img src=pic.png srcset='big.png 2x'>''"

definition exPageInvalid :: string where
  "exPageInvalid = ''<img src=http://><img src=pic.png>''"

definition exPageLinked :: string where
  "exPageLinked = ''<a href=http://>''"

definition exPageStyled :: string where
  "exPageStyled = ''<link rel=stylesheet href=/css/s.css>''"

definition exLoad :: "string \<Rightarrow> document" where
  "exLoad body =
     (if body = exPage then [exLink, exImg ''pic.png'']
      else if body = exPageTwice then [exImg ''pic.png'', exImg ''pic.png'']
      else if body = exPageSrcset then [exImgSet]
      else if body = exPageInvalid then [exImg ''http://'', exImg ''pic.png'']
      else if body = exPageLinked then [\<lparr>tag = ''a'', attrs = [(''href'', ''http://'')]\<rparr>]
      else if body = exPageStyled
      then [\<lparr>tag = ''link'', attrs = [(''rel'', ''stylesheet''), (''href'', ''/css/s.css'')]\<rparr>]
      else [])"

text \<open>
  \<open>exEnv page net\<close>: the entry page answers \<open>page\<close>, every other URL what the table
  \<open>net\<close> has for it, at any time; every directory can be made and every file written.
\<close>

definition exEnv :: "string option \<Rightarrow> (string \<times> string) list \<Rightarrow> env" where
  "exEnv page net =
     \<lparr>newURL = exNewURL,
      httpGet = (\<lambda>n u. if u = ''https://ex.test/'' then page else map_of net u),
      canEnsureDir = (\<lambda>n d. True), canWrite = (\<lambda>n p. True),
      cheerioLoad = exLoad, cheerioHtml = exRender,
      pathJoin = exJoin, pathDirname = exDirname, pathRelative = exRelative,
      utf8 = (\<lambda>b. b)\<rparr>"

definition exNet :: "(string \<times> string) list" where
  "exNet = [(''https://ex.test/s.css'', ''body{background:url(bg.png)}''),
            (''https://ex.test/pic.png'', ''PNG1''),
            (''https://ex.test/bg.png'', ''PNG2''),
            (''https://ex.test/big.png'', ''PNG3'')]"

text \<open>The cloner that \<^verbatim>\<open>clone https://ex.test/ -o out\<close> constructs, on an empty disk.\<close>

definition exCloner :: cloner where
  "exCloner = \<lparr>baseUrl = exUrl ''/'' [] [], outputDir = ''out'', downloadedFiles = {},
     downloadQueue = [], maxConcurrent = 5, activeDownloads = 0, files = Map.empty,
     requests = [], console = [], tasks = [], mainLoop = Running, now = 0\<rparr>"

text \<open>
  A task whose awaited operation fails at time \<open>n\<close>: the request, or one of the two file
  operations.
\<close>

fun fails :: "env \<Rightarrow> nat \<Rightarrow> task \<Rightarrow> bool" where
  "fails e n (AwaitGet it) = (httpGet e n (url it) = None)"
| "fails e n (AwaitEnsureDir it filePath data) = (\<not> canEnsureDir e n (pathDirname e filePath))"
| "fails e n (AwaitWriteFile it filePath data) = (\<not> canWrite e n filePath)"
| "fails e n t = False"

text \<open>
  The site as it is; with the page of the two images; with the entry page down; with
  the image missing; with a stylesheet that refers to the image of the page; with the
  page of the hyperlink; with the page whose stylesheet \<^verbatim>\<open>/css/s.css\<close> has four
  references, the second of which is no URL and the last of which is local already. \<open>exSchedule\<close> is a run of the first to its
  end: both downloads start, the stylesheet is fetched, written and read, the timer
  fires and the download of its \<^verbatim>\<open>bg.png\<close> starts, then the three downloads finish one
  after the other. In \<open>exScheduleShared\<close> the image is downloaded first, then the
  stylesheet.
\<close>

definition exSite :: env where
  "exSite = exEnv (Some exPage) exNet"

definition exTwice :: env where
  "exTwice = exEnv (Some exPageTwice) exNet"

definition exDown :: env where
  "exDown = exEnv None exNet"

definition exBroken :: env where
  "exBroken = exEnv (Some exPage)
     [(''https://ex.test/s.css'', ''body{background:url(bg.png)}''), (''https://ex.test/bg.png'', ''PNG2'')]"

definition exShared :: env where
  "exShared = exEnv (Some exPage)
     [(''https://ex.test/s.css'', ''body{background:url(pic.png)}''), (''https://ex.test/pic.png'', ''PNG1'')]"

definition exLinked :: env where
  "exLinked = exEnv (Some exPageLinked) []"

definition exSheet :: string where
  "exSheet = ''a{b:url(/img/bg.png)}c{d:url(http://)}e{f:url(x.png)}g{h:url(''
     @ [CHR 0x22] @ ''x.png'' @ [CHR 0x22] @ '')}''"

definition exStyled :: env where
  "exStyled = exEnv (Some exPageStyled) [(''https://ex.test/css/s.css'', exSheet)]"

definition exCss :: item where
  "exCss = \<lparr>url = ''https://ex.test/css/s.css'', localPath = ''css/s.css'', itemType = Css\<rparr>"

definition exScheduleShared :: "event list" where
  "exScheduleShared = [Resume 1, Resume 0, Resume 0, Resume 0, Resume 0, Resume 0, Resume 0,
     Timer, Loop]"

definition exSchedule :: "event list" where
  "exSchedule = [Loop, Loop, Loop, Resume 0, Resume 0, Resume 0, Resume 0, Timer, Loop, Loop,
     Resume 0, Resume 0, Resume 0, Resume 0, Resume 0, Resume 0, Resume 0, Resume 0, Resume 0,
     Resume 0, Timer, Loop]"

definition exScheduleTwice :: "event list" where
  "exScheduleTwice = [Loop, Loop, Loop, Resume 0, Resume 0, Resume 0, Resume 0,
     Resume 0, Resume 0, Resume 0, Resume 0, Timer, Loop]"

definition exPic :: item where
  "exPic = \<lparr>url = ''https://ex.test/pic.png'', localPath = ''pic.png'', itemType = Img\<rparr>"

definition exBg :: item where
  "exBg = \<lparr>url = ''https://ex.test/bg.png'', localPath = ''bg.png'', itemType = Asset\<rparr>"

section \<open>The Path Resolver: proofs\<close>

lemma stripSeparator_eq: "stripSeparator p = stripLeadingSlash p"
  by (cases p) (simp_all add: stripLeadingSlash_def startsWith_def substring_def)

lemma endsWith_slash: "endsWith p ''/'' \<longleftrightarrow> p \<noteq> [] \<and> last p = CHR ''/''"
proof (cases p rule: rev_cases)
  case Nil
  then show ?thesis by (simp add: endsWith_def)
next
  case (snoc ys y)
  then show ?thesis by (auto simp: endsWith_def)
qed

lemma startsWith_slash: "startsWith p ''/'' \<longleftrightarrow> p \<noteq> [] \<and> hd p = CHR ''/''"
  by (cases p) (auto simp: startsWith_def)

lemma resolveSpec_eq: "resolveSpec p = addHtml (addIndex (stripLeadingSlash p))"
  by (simp add: resolveSpec_def addHtml_def addIndex_def stripSeparator_eq endsWith_slash Let_def)

text \<open>
  Once the loop of \<^verbatim>\<open>extname\<close> has seen a dot and a character before it, the rest of
  the path changes neither the start nor the end of the extension.
\<close>

lemma extnameLoop_keeps:
  "startDot s \<noteq> -1 \<Longrightarrow> endIdx s \<noteq> -1 \<Longrightarrow> preDotState s \<noteq> 0 \<Longrightarrow>
   startDot (extnameLoop cs i s) = startDot s \<and> endIdx (extnameLoop cs i s) = endIdx s
   \<and> preDotState (extnameLoop cs i s) \<noteq> 0"
proof (induction cs arbitrary: i s)
  case Nil
  then show ?case by simp
next
  case (Cons c cs)
  let ?t = "extDot c i (extMark i s)"
  have t: "startDot ?t = startDot s" "endIdx ?t = endIdx s" "preDotState ?t \<noteq> 0"
    using Cons.prems by (simp_all add: extDot_def extMark_def)
  show ?case
  proof (cases "c = CHR ''/''")
    case True
    then show ?thesis using Cons by simp
  next
    case False
    then have "extnameLoop (c # cs) i s = extnameLoop cs (i - 1) ?t" by simp
    moreover have "startDot (extnameLoop cs (i - 1) ?t) = startDot ?t \<and>
        endIdx (extnameLoop cs (i - 1) ?t) = endIdx ?t \<and> preDotState (extnameLoop cs (i - 1) ?t) \<noteq> 0"
      using Cons.IH [of ?t "i - 1"] t Cons.prems by simp
    ultimately show ?thesis using t by simp
  qed
qed

lemma extname_html:
  assumes "p \<noteq> []" and "last p \<noteq> CHR ''/''"
  shows "extname (p @ ''.html'') = ''.html''"
proof -
  obtain ys y where p: "p = ys @ [y]" using assms(1) by (cases p rule: rev_cases) auto
  with assms(2) have y: "y \<noteq> CHR ''/''" by simp
  let ?n = "int (length ys)"
  define s0 where "s0 = extDot y ?n
    \<lparr>startDot = ?n + 1, startPart = 0, endIdx = ?n + 6, matchedSlash = False, preDotState = 0\<rparr>"
  have loop: "extnameLoop (rev (p @ ''.html'')) (int (length (p @ ''.html'')) - 1) extInit
      = extnameLoop (rev ys) (?n - 1) s0"
    using y by (simp add: p extInit_def extMark_def extDot_def s0_def add.commute)
  have s0: "startDot s0 = ?n + 1" "endIdx s0 = ?n + 6" "preDotState s0 \<noteq> 0"
    by (simp_all add: s0_def extDot_def)
  then have k: "startDot (extnameLoop (rev ys) (?n - 1) s0) = ?n + 1"
     "endIdx (extnameLoop (rev ys) (?n - 1) s0) = ?n + 6"
     "preDotState (extnameLoop (rev ys) (?n - 1) s0) \<noteq> 0"
    using extnameLoop_keeps [of s0 "rev ys" "?n - 1"] by simp_all
  have "extname (p @ ''.html'') = slice (p @ ''.html'') (?n + 1) (?n + 6)"
    unfolding extname_def loop Let_def using k by simp
  also have "\<dots> = ''.html''"
    by (simp add: slice_def p nat_add_distrib)
  finally show ?thesis .
qed

lemma addIndex_shape: "addIndex q \<noteq> [] \<and> last (addIndex q) \<noteq> CHR ''/''"
  by (auto simp: addIndex_def endsWith_slash)

lemma addHtml_shape:
  assumes "q \<noteq> []" and "last q \<noteq> CHR ''/''"
  shows "addHtml q \<noteq> [] \<and> last (addHtml q) \<noteq> CHR ''/'' \<and> extname (addHtml q) \<noteq> []"
  using assms by (auto simp: addHtml_def extname_html)

lemma addHtml_hd: "q \<noteq> [] \<Longrightarrow> hd (addHtml q) = hd q"
  by (simp add: addHtml_def)

lemma addIndex_hd: "startsWith (addIndex q) ''/'' \<longleftrightarrow> startsWith q ''/''"
  by (cases q) (auto simp: addIndex_def startsWith_def)

lemma strip_hd: "startsWith (stripLeadingSlash p) ''/'' \<longleftrightarrow> startsWith p ''//''"
  by (cases p; cases "tl p") (auto simp: stripLeadingSlash_def startsWith_def substring_def)

lemmas ex_simps = exEnv_def exNewURL_def exUrl_def exJoin_def exDirname_def exRelative_def
  exRender_def exLoad_def exLink_def exImg_def exImgSet_def exNet_def exCloner_def
  exPage_def exPageTwice_def exPageSrcset_def exPageInvalid_def exPageLinked_def exPageStyled_def
  exSite_def exTwice_def exDown_def exBroken_def exSchedule_def exScheduleTwice_def exPic_def exBg_def
  exShared_def exLinked_def exSheet_def exStyled_def exCss_def exScheduleShared_def


lemmas path_simps = getLocalPath_def addHtml_def addIndex_def stripLeadingSlash_def
  startsWith_def endsWith_def substring_def extname_def extInit_def extMark_def extDot_def
  slice_def

lemmas asset_simps = processAssets_def assetLoop_def assetStep_def findAssets_def attrAssets_def
  srcsetAssets_def srcsetUrls_def select_def attr_def hasAttr_def truthy_def
  updateAssetReference_def setAttr_def invalidAsset_def trim_def spaceAt_def spaceEnd_def whiteSpace_def
  rewriteLinks_def linkStep_def relStylesheet_def toLowerCase_def

lemmas css_simps = rewriteCSS_def cssLoop_def cssStep_def relativeRef_def slashes_def replace_def
  matchAt_def optQuote_def isQuote_def spaceAt_def whiteSpace_def

lemmas run_simps = beforeQueue_def downloadPage_def pageFailed_def loopIteration_def
  downloadAssetStart_def assetFailed_def cssFailed_def tick_def

lemmas eval_simps = ex_simps asset_simps path_simps css_simps run_simps

text \<open>
  C5. For a URL object \<open>u\<close> (one that \<^verbatim>\<open>new URL\<close> reads back as it is),
  \<^verbatim>\<open>getLocalPath\<close> returns what the specification's algorithm gives for the path
  component of \<open>u\<close>: a leading separator stripped, \<^verbatim>\<open>index.html\<close> appended when the
  result is empty or ends in a separator, \<^verbatim>\<open>.html\<close> appended when the name has no
  extension. The result is a function of the path component alone: a URL \<open>v\<close> with the
  same path component, whatever its query string and fragment, gets the same path.
\<close>

theorem getLocalPath_resolves:
  assumes "newURL e (href u) None = Some u" and "newURL e (href v) None = Some v"
    and "pathname v = pathname u"
  shows "getLocalPath e u = Some (resolveSpec (pathname u)) \<and> getLocalPath e v = getLocalPath e u"
  using assms by (simp add: getLocalPath_def resolveSpec_eq)

theorem getLocalPath_resolves_witness:
  "newURL (exEnv None []) (href (exUrl ''/a/b'' [] [])) None = Some (exUrl ''/a/b'' [] [])
   \<and> newURL (exEnv None []) (href (exUrl ''/a/b'' ''?x=1'' ''#top'')) None
       = Some (exUrl ''/a/b'' ''?x=1'' ''#top'')
   \<and> getLocalPath (exEnv None []) (exUrl ''/a/b'' [] []) = Some ''a/b.html''
   \<and> getLocalPath (exEnv None []) (exUrl ''/a/b'' ''?x=1'' ''#top'') = Some ''a/b.html''"
  using getLocalPath_resolves [of "exEnv None []" "exUrl ''/a/b'' [] []" "exUrl ''/a/b'' ''?x=1'' ''#top''"]
  by (simp add: ex_simps resolveSpec_def extname_def extInit_def extMark_def extDot_def slice_def)

text \<open>
  C10, as amended. The path that \<^verbatim>\<open>getLocalPath\<close> returns is not empty, does not end
  in a separator, and has a non-empty extension (\<^verbatim>\<open>path.extname\<close> of it is not empty);
  it begins with a separator exactly when the path component of the URL begins with
  two, since one is stripped.
\<close>

theorem getLocalPath_shape:
  assumes "newURL e (href u) None = Some urlObj" and "getLocalPath e u = Some p"
  shows "p \<noteq> [] \<and> \<not> endsWith p ''/'' \<and> extname p \<noteq> []
         \<and> (startsWith p ''/'' \<longleftrightarrow> startsWith (pathname urlObj) ''//'')"
proof -
  let ?q = "addIndex (stripLeadingSlash (pathname urlObj))"
  have p: "p = addHtml ?q" using assms by (simp add: getLocalPath_def)
  have q: "?q \<noteq> []" "last ?q \<noteq> CHR ''/''" using addIndex_shape by blast+
  have "startsWith p ''/'' \<longleftrightarrow> startsWith ?q ''/''"
    using q(1) by (simp add: p startsWith_slash addHtml_hd addHtml_def)
  then show ?thesis
    using addHtml_shape [OF q] by (simp add: p endsWith_slash addIndex_hd strip_hd)
qed

theorem getLocalPath_shape_witness:
  "newURL (exEnv None []) (href (exUrl ''/a/b'' [] [])) None = Some (exUrl ''/a/b'' [] [])
   \<and> getLocalPath (exEnv None []) (exUrl ''/a/b'' [] []) = Some ''a/b.html''
   \<and> extname ''a/b.html'' \<noteq> [] \<and> \<not> startsWith ''a/b.html'' ''/''"
  using getLocalPath_shape [of "exEnv None []" "exUrl ''/a/b'' [] []" "exUrl ''/a/b'' [] []" "''a/b.html''"]
  by (simp add: ex_simps path_simps)

text \<open>
  C10 as it was stated fails: the path component of \<^verbatim>\<open>https://ex.test//a.png\<close> is
  \<^verbatim>\<open>//a.png\<close>, and the path returned for it begins with a separator.
\<close>

theorem getLocalPath_leading_separator:
  "getLocalPath (exEnv None []) (exUrl ''//a.png'' [] []) = Some ''/a.png''
   \<and> startsWith ''/a.png'' ''/''"
  by (simp add: ex_simps path_simps)

section \<open>The Asset Extractor and the Rewriter: proofs\<close>

lemma assetLoop_append:
  "assetLoop e base (xs @ ys) st = assetLoop e base ys (assetLoop e base xs st)"
  by (simp add: assetLoop_def)

lemma assetStep_invalid:
  "newURL e (assetUrl a) (Some base) = None \<Longrightarrow> assetStep e base a st = invalidAsset a st"
  by (cases st) (simp add: assetStep_def)

lemma cssLoop_append:
  "cssLoop e base fp (xs @ ys) st = cssLoop e base fp ys (cssLoop e base fp xs st)"
  by (simp add: cssLoop_def)

lemma cssStep_invalid:
  "newURL e (snd m) (Some base) = None \<Longrightarrow> cssStep e base fp m st = st"
  by (cases st) (simp add: cssStep_def)

lemma linkStep_invalid:
  "newURL e (the (attr (doc ! i) ''href'')) (Some base) = None \<Longrightarrow> linkStep e base s i doc = doc"
  by (simp add: linkStep_def Let_def)

text \<open>
  C9, as amended. When \<^verbatim>\<open>new URL\<close> throws for the reference \<open>a\<close> of the page's assets,
  the loop of \<^verbatim>\<open>processAssets\<close> goes on: the references before \<open>a\<close> have been
  processed, \<open>a\<close> adds one warning to the log and changes neither the document nor the
  queue, and the references after \<open>a\<close> are resolved, enqueued and rewritten from there.
  When it throws for the hyperlink \<open>i\<close> in \<^verbatim>\<open>rewriteLinks\<close>, or for the reference \<open>m\<close> of
  a stylesheet in \<^verbatim>\<open>processCSSFile\<close>, the loop goes on in the same way, but nothing is
  logged: the hyperlink leaves the document, and the reference leaves the text and the
  cloner (its log with it), as the references before had made them.
\<close>

theorem invalid_reference_skipped:
  assumes "newURL e pageUrl None = Some base" and "newURL e cssUrl None = Some cssBase"
  shows "(findAssets doc = pre @ a # post \<longrightarrow> newURL e (assetUrl a) (Some base) = None \<longrightarrow>
            assetLoop e base pre (doc, s) = (doc1, s1) \<longrightarrow>
            processAssets e doc pageUrl s
              = Some (assetLoop e base post
                        (doc1, s1\<lparr>console := console s1 @ [LogInvalidAsset (assetUrl a)]\<rparr>)))
     \<and> (select (\<lambda>el. tag el = ''a'' \<and> hasAttr el ''href'') ldoc = lpre @ i # lpost \<longrightarrow>
            fold (linkStep e base s) lpre ldoc = ldoc1 \<longrightarrow>
            newURL e (the (attr (ldoc1 ! i) ''href'')) (Some base) = None \<longrightarrow>
            rewriteLinks e ldoc pageUrl s = Some (fold (linkStep e base s) lpost ldoc1))
     \<and> (cssMatches cssContent = mpre @ m # mpost \<longrightarrow> newURL e (snd m) (Some cssBase) = None \<longrightarrow>
            rewriteCSS e filePath cssUrl cssContent s
              = Some (cssLoop e cssBase filePath mpost (cssLoop e cssBase filePath mpre (cssContent, s))))"
  using assms
  by (simp add: processAssets_def assetLoop_append assetLoop_def assetStep_invalid invalidAsset_def
        rewriteLinks_def linkStep_invalid rewriteCSS_def cssLoop_append cssStep_invalid
        cssLoop_def)

theorem invalid_reference_skipped_witness:
  "map_option (\<lambda>(d, s). (d, downloadQueue s, console s))
     (processAssets exSite [exImg ''http://'', exImg ''pic.png''] ''https://ex.test/'' exCloner)
   = Some ([exImg ''http://'', exImg ''./pic.png''], [exPic], [LogInvalidAsset ''http://''])
   \<and> rewriteLinks exSite [\<lparr>tag = ''a'', attrs = [(''href'', ''http://'')]\<rparr>,
          \<lparr>tag = ''a'', attrs = [(''href'', ''/s.css'')]\<rparr>] ''https://ex.test/'' exCloner
       = Some [\<lparr>tag = ''a'', attrs = [(''href'', ''http://'')]\<rparr>,
               \<lparr>tag = ''a'', attrs = [(''href'', ''./s.css'')]\<rparr>]
   \<and> map_option (\<lambda>(t, s). (t, downloadQueue s, console s))
        (rewriteCSS exSite ''out/s.css'' ''https://ex.test/s.css''
           ''a{b:url(http://)}c{d:url(bg.png)}'' exCloner)
       = Some (''a{b:url(http://)}c{d:url('' @ [CHR 0x22] @ ''bg.png'' @ [CHR 0x22] @ '')}'', [exBg], [])"
  using invalid_reference_skipped [where e = exSite and pageUrl = "''https://ex.test/''"
     and base = "exUrl ''/'' [] []" and cssUrl = "''https://ex.test/s.css''"
     and cssBase = "exUrl ''/s.css'' [] []"
     and doc = "[exImg ''http://'', exImg ''pic.png'']" and pre = "[]"
     and a = "\<lparr>assetType = Img, assetUrl = ''http://'', assetElement = 0\<rparr>"
     and post = "[\<lparr>assetType = Img, assetUrl = ''pic.png'', assetElement = 1\<rparr>]"
     and s = exCloner and ?doc1.0 = "[exImg ''http://'', exImg ''pic.png'']" and ?s1.0 = exCloner
     and ldoc = "[\<lparr>tag = ''a'', attrs = [(''href'', ''http://'')]\<rparr>,
                  \<lparr>tag = ''a'', attrs = [(''href'', ''/s.css'')]\<rparr>]"
     and lpre = "[]" and i = 0 and lpost = "[1]"
     and ?ldoc1.0 = "[\<lparr>tag = ''a'', attrs = [(''href'', ''http://'')]\<rparr>,
                      \<lparr>tag = ''a'', attrs = [(''href'', ''/s.css'')]\<rparr>]"
     and cssContent = "''a{b:url(http://)}c{d:url(bg.png)}''" and mpre = "[]"
     and m = "(''url(http://)'', ''http://'')" and mpost = "[(''url(bg.png)'', ''bg.png'')]"
     and filePath = "''out/s.css''"]
  by (simp add: eval_simps)

text \<open>
  C9 as it was stated fails for a hyperlink. The page is \<^verbatim>\<open><a href=http://>\<close>;
  \<^verbatim>\<open>new URL\<close> rejects \<^verbatim>\<open>http://\<close>, the page is written with the link as it was, and the
  log has the two lines of \<^verbatim>\<open>clone\<close> and the line of \<^verbatim>\<open>downloadPage\<close>, and no warning.
\<close>

theorem invalid_link_silent:
  "console (beforeQueue exLinked exCloner)
     = [LogStarting ''https://ex.test/'', LogOutputDir ''out'', LogPage ''https://ex.test/'']
   \<and> files (beforeQueue exLinked exCloner) ''out/index.html'' = Some ''<a href=http://>''"
  by (simp add: eval_simps)

text \<open>
  C7. The page is \<^verbatim>\<open><img src=pic.png srcset='big.png 2x'>\<close>. The entry of \<^verbatim>\<open>srcset\<close>
  is found and enqueued, but \<^verbatim>\<open>updateAssetReference\<close> writes its local path into
  \<^verbatim>\<open>src\<close>, over the path of \<^verbatim>\<open>pic.png\<close>, and \<^verbatim>\<open>srcset\<close> keeps the remote reference.
\<close>

theorem srcset_not_rewritten:
  "map_option fst (processAssets (exEnv None []) [exImgSet] ''https://ex.test/'' exCloner)
   = Some [\<lparr>tag = ''img'', attrs = [(''src'', ''./big.png''), (''srcset'', ''big.png 2x'')]\<rparr>]"
  by (simp add: ex_simps asset_simps path_simps)

text \<open>No run of \<^verbatim>\<open>processAssets\<close> changes a \<^verbatim>\<open>srcset\<close> attribute.\<close>

lemma setAttrList_other: "k' \<noteq> k \<Longrightarrow> map_of (setAttrList k v kvs) k' = map_of kvs k'"
  by (induction kvs) auto

lemma map_update_same: "(map f xs)[i := f (xs ! i)] = map f xs"
  by (cases "i < length xs") (simp_all add: list_update_same_conv list_update_beyond)

lemma updateAssetReference_srcset:
  "map (\<lambda>el. attr el ''srcset'') (updateAssetReference doc a lp) = map (\<lambda>el. attr el ''srcset'') doc"
  using map_update_same [of "\<lambda>el. map_of (attrs el) ''srcset''" doc "assetElement a"]
  by (auto simp: updateAssetReference_def Let_def map_update attr_def setAttr_def setAttrList_other)

lemma assetStep_srcset:
  "map (\<lambda>el. attr el ''srcset'') (fst (assetStep e base a st)) = map (\<lambda>el. attr el ''srcset'') (fst st)"
  by (cases st) (auto simp: assetStep_def invalidAsset_def updateAssetReference_srcset split: option.splits)

lemma assetLoop_srcset:
  "map (\<lambda>el. attr el ''srcset'') (fst (assetLoop e base as st)) = map (\<lambda>el. attr el ''srcset'') (fst st)"
  unfolding assetLoop_def
  by (induction as arbitrary: st) (simp_all add: assetStep_srcset)

lemma processAssets_srcset:
  "processAssets e doc pageUrl s = Some (doc', s') \<Longrightarrow>
   map (\<lambda>el. attr el ''srcset'') doc' = map (\<lambda>el. attr el ''srcset'') doc"
proof -
  assume a: "processAssets e doc pageUrl s = Some (doc', s')"
  then obtain base where "assetLoop e base (findAssets doc) (doc, s) = (doc', s')"
    by (auto simp: processAssets_def split: option.splits)
  then show ?thesis
    using assetLoop_srcset [of e base "findAssets doc" "(doc, s)"] by simp
qed

section \<open>What the loops change\<close>

text \<open>
  The loop of \<^verbatim>\<open>processCSSFile\<close> changes the queue alone, and only by appending items
  whose URL is not in \<^verbatim>\<open>downloadedFiles\<close>; the loop of \<^verbatim>\<open>processAssets\<close> also writes
  to the log.
\<close>

lemma cssStep_frame:
  "\<exists>new. snd (cssStep e b fp m (t, s)) = s\<lparr>downloadQueue := downloadQueue s @ new\<rparr>
     \<and> (\<forall>it \<in> set new. url it \<notin> downloadedFiles s)"
proof (cases "newURL e (snd m) (Some b)")
  case None
  then have "snd (cssStep e b fp m (t, s)) = s\<lparr>downloadQueue := downloadQueue s @ []\<rparr>"
    by (simp add: cssStep_def)
  then show ?thesis by (metis empty_iff empty_set)
next
  case (Some u)
  show ?thesis
  proof (cases "getLocalPath e u")
    case None
    with Some have "snd (cssStep e b fp m (t, s)) = s\<lparr>downloadQueue := downloadQueue s @ []\<rparr>"
      by (simp add: cssStep_def)
    then show ?thesis by (metis empty_iff empty_set)
  next
    case (Some lp)
    show ?thesis
    proof (cases "href u \<in> downloadedFiles s")
      case True
      with Some \<open>newURL e (snd m) (Some b) = Some u\<close>
      have "snd (cssStep e b fp m (t, s)) = s\<lparr>downloadQueue := downloadQueue s @ []\<rparr>"
        by (simp add: cssStep_def)
      then show ?thesis by (metis empty_iff empty_set)
    next
      case False
      with Some \<open>newURL e (snd m) (Some b) = Some u\<close>
      have "snd (cssStep e b fp m (t, s)) = s\<lparr>downloadQueue := downloadQueue s
              @ [\<lparr>url = href u, localPath = lp, itemType = Asset\<rparr>]\<rparr>"
        by (simp add: cssStep_def)
      with False show ?thesis by (intro exI [of _ "[\<lparr>url = href u, localPath = lp, itemType = Asset\<rparr>]"]) simp
    qed
  qed
qed

lemma cssLoop_frame:
  "\<exists>new. snd (cssLoop e b fp ms (t, s)) = s\<lparr>downloadQueue := downloadQueue s @ new\<rparr>
     \<and> (\<forall>it \<in> set new. url it \<notin> downloadedFiles s)"
proof (induction ms arbitrary: t s)
  case Nil
  have "snd (cssLoop e b fp [] (t, s)) = s\<lparr>downloadQueue := downloadQueue s @ []\<rparr>"
    by (simp add: cssLoop_def)
  then show ?case by (metis empty_iff empty_set)
next
  case (Cons m ms)
  obtain t1 s1 where st: "cssStep e b fp m (t, s) = (t1, s1)" by (cases "cssStep e b fp m (t, s)")
  obtain new1 where n1: "s1 = s\<lparr>downloadQueue := downloadQueue s @ new1\<rparr>"
      "\<forall>it \<in> set new1. url it \<notin> downloadedFiles s"
    using cssStep_frame [of e b fp m t s] st by auto
  obtain new2 where n2: "snd (cssLoop e b fp ms (t1, s1)) = s1\<lparr>downloadQueue := downloadQueue s1 @ new2\<rparr>"
      "\<forall>it \<in> set new2. url it \<notin> downloadedFiles s1"
    using Cons.IH [of t1 s1] by auto
  have "cssLoop e b fp (m # ms) (t, s) = cssLoop e b fp ms (t1, s1)"
    by (simp add: cssLoop_def st)
  then have "snd (cssLoop e b fp (m # ms) (t, s)) = s\<lparr>downloadQueue := downloadQueue s @ (new1 @ new2)\<rparr>"
    using n1 n2 by simp
  moreover have "\<forall>it \<in> set (new1 @ new2). url it \<notin> downloadedFiles s"
    using n1 n2 by auto
  ultimately show ?case by blast
qed

lemma rewriteCSS_frame:
  assumes "rewriteCSS e fp u content s = Some (t', s')"
  shows "\<exists>new. s' = s\<lparr>downloadQueue := downloadQueue s @ new\<rparr>
     \<and> (\<forall>it \<in> set new. url it \<notin> downloadedFiles s)"
proof -
  from assms obtain b where "cssLoop e b fp (cssMatches content) (content, s) = (t', s')"
    by (auto simp: rewriteCSS_def split: option.splits)
  then show ?thesis using cssLoop_frame [of e b fp "cssMatches content" content s] by simp
qed

lemma assetStep_frame:
  "\<exists>new logs. snd (assetStep e b a (d, s))
       = s\<lparr>downloadQueue := downloadQueue s @ new, console := console s @ logs\<rparr>
     \<and> (\<forall>it \<in> set new. url it \<notin> downloadedFiles s)"
proof -
  have invalid: ?thesis if "assetStep e b a (d, s) = invalidAsset a (d, s)"
  proof -
    from that have "snd (assetStep e b a (d, s))
       = s\<lparr>downloadQueue := downloadQueue s @ [], console := console s @ [LogInvalidAsset (assetUrl a)]\<rparr>"
      by (simp add: invalidAsset_def)
    then show ?thesis by (metis empty_iff empty_set)
  qed
  show ?thesis
  proof (cases "newURL e (assetUrl a) (Some b)")
    case None
    then show ?thesis by (intro invalid) (simp add: assetStep_def)
  next
    case (Some u)
    note u = this
    show ?thesis
    proof (cases "getLocalPath e u")
      case None
      with u show ?thesis by (intro invalid) (simp add: assetStep_def)
    next
      case (Some lp)
      show ?thesis
      proof (cases "href u \<in> downloadedFiles s")
        case True
        with Some u have "snd (assetStep e b a (d, s))
            = s\<lparr>downloadQueue := downloadQueue s @ [], console := console s @ []\<rparr>"
          by (simp add: assetStep_def)
        then show ?thesis by (metis empty_iff empty_set)
      next
        case False
        with Some u have "snd (assetStep e b a (d, s))
           = s\<lparr>downloadQueue := downloadQueue s @ [\<lparr>url = href u, localPath = lp, itemType = assetType a\<rparr>],
            console := console s @ []\<rparr>"
          by (simp add: assetStep_def)
        with False show ?thesis
          by (intro exI [of _ "[\<lparr>url = href u, localPath = lp, itemType = assetType a\<rparr>]"] exI [of _ "[]"]) simp
      qed
    qed
  qed
qed

lemma assetLoop_frame:
  "\<exists>new logs. snd (assetLoop e b as (d, s))
       = s\<lparr>downloadQueue := downloadQueue s @ new, console := console s @ logs\<rparr>
     \<and> (\<forall>it \<in> set new. url it \<notin> downloadedFiles s)"
proof (induction as arbitrary: d s)
  case Nil
  have "snd (assetLoop e b [] (d, s)) = s\<lparr>downloadQueue := downloadQueue s @ [], console := console s @ []\<rparr>"
    by (simp add: assetLoop_def)
  then show ?case by (metis empty_iff empty_set)
next
  case (Cons a as)
  obtain d1 s1 where st: "assetStep e b a (d, s) = (d1, s1)" by (cases "assetStep e b a (d, s)")
  obtain new1 logs1 where n1: "s1 = s\<lparr>downloadQueue := downloadQueue s @ new1, console := console s @ logs1\<rparr>"
      "\<forall>it \<in> set new1. url it \<notin> downloadedFiles s"
    using assetStep_frame [of e b a d s] st by auto
  obtain new2 logs2 where n2: "snd (assetLoop e b as (d1, s1))
        = s1\<lparr>downloadQueue := downloadQueue s1 @ new2, console := console s1 @ logs2\<rparr>"
      "\<forall>it \<in> set new2. url it \<notin> downloadedFiles s1"
    using Cons.IH [of d1 s1] by auto
  have "assetLoop e b (a # as) (d, s) = assetLoop e b as (d1, s1)"
    by (simp add: assetLoop_def st)
  then have "snd (assetLoop e b (a # as) (d, s))
     = s\<lparr>downloadQueue := downloadQueue s @ (new1 @ new2), console := console s @ (logs1 @ logs2)\<rparr>"
    using n1 n2 by simp
  moreover have "\<forall>it \<in> set (new1 @ new2). url it \<notin> downloadedFiles s"
    using n1 n2 by auto
  ultimately show ?case by blast
qed

lemma processAssets_frame:
  assumes "processAssets e doc pageUrl s = Some (doc', s')"
  shows "\<exists>new logs. s' = s\<lparr>downloadQueue := downloadQueue s @ new, console := console s @ logs\<rparr>
     \<and> (\<forall>it \<in> set new. url it \<notin> downloadedFiles s)"
proof -
  from assms obtain b where "assetLoop e b (findAssets doc) (doc, s) = (doc', s')"
    by (auto simp: processAssets_def split: option.splits)
  then show ?thesis using assetLoop_frame [of e b "findAssets doc" doc s] by simp
qed

lemma downloadPage_frame:
  "tasks (downloadPage e u f s) = tasks s
   \<and> activeDownloads (downloadPage e u f s) = activeDownloads s
   \<and> maxConcurrent (downloadPage e u f s) = maxConcurrent s
   \<and> mainLoop (downloadPage e u f s) = mainLoop s
   \<and> requests (downloadPage e u f s) = requests s @ [u]
   \<and> downloadedFiles (downloadPage e u f s) \<subseteq> insert u (downloadedFiles s)"
proof (cases "httpGet e (now s) u")
  case None
  then show ?thesis by (auto simp: downloadPage_def pageFailed_def)
next
  case (Some data)
  let ?s0 = "s\<lparr>console := console s @ [LogPage u], requests := requests s @ [u]\<rparr>"
  show ?thesis
  proof (cases "processAssets e (cheerioLoad e data) u ?s0")
    case None
    with Some show ?thesis by (auto simp: downloadPage_def pageFailed_def)
  next
    case (Some r)
    obtain doc1 s1 where r: "r = (doc1, s1)" by (cases r)
    obtain new logs where s1: "s1 = ?s0\<lparr>downloadQueue := downloadQueue ?s0 @ new, console := console ?s0 @ logs\<rparr>"
      using processAssets_frame [of e "cheerioLoad e data" u ?s0 doc1 s1] Some r by auto
    show ?thesis
      using Some r \<open>httpGet e (now s) u = Some data\<close>
      by (auto simp: downloadPage_def pageFailed_def s1 Let_def split: option.splits)
  qed
qed

lemma beforeQueue_start:
  assumes "WebsiteCloner e fs b out = Some c"
  shows "tasks (beforeQueue e c) = [] \<and> activeDownloads (beforeQueue e c) = 0
    \<and> maxConcurrent (beforeQueue e c) = 5 \<and> mainLoop (beforeQueue e c) = Running
    \<and> downloadedFiles (beforeQueue e c) \<subseteq> set (requests (beforeQueue e c))"
proof -
  from assms obtain u where c: "c = \<lparr>baseUrl = u, outputDir = out, downloadedFiles = {}, downloadQueue = [],
          maxConcurrent = 5, activeDownloads = 0, files = fs, requests = [], console = [],
          tasks = [], mainLoop = Running, now = 0\<rparr>"
    by (auto simp: WebsiteCloner_def split: option.splits)
  let ?c = "c\<lparr>console := console c @ [LogStarting (href (baseUrl c)), LogOutputDir (outputDir c)],
               now := now c + 1\<rparr>"
  have "beforeQueue e c = (downloadPage e (href (baseUrl c)) ''index.html'' ?c)
          \<lparr>now := now (downloadPage e (href (baseUrl c)) ''index.html'' ?c) + 1\<rparr>"
    by (simp add: beforeQueue_def tick_def)
  then show ?thesis
    using downloadPage_frame [of e "href (baseUrl c)" "''index.html''" ?c]
    by (auto simp: c)
qed

section \<open>The Download Scheduler: proofs\<close>

subsection \<open>Counting the downloads in flight\<close>

lemma tick_fields [simp]:
  "downloadedFiles (tick s) = downloadedFiles s" "downloadQueue (tick s) = downloadQueue s"
  "maxConcurrent (tick s) = maxConcurrent s" "activeDownloads (tick s) = activeDownloads s"
  "files (tick s) = files s" "requests (tick s) = requests s" "console (tick s) = console s"
  "tasks (tick s) = tasks s" "mainLoop (tick s) = mainLoop s" "now (tick s) = now s + 1"
  by (simp_all add: tick_def)

lemma resume_counts:
  assumes "k < length (tasks s)"
  shows "maxConcurrent (resume e k (tasks s ! k) s) = maxConcurrent s
     \<and> mainLoop (resume e k (tasks s ! k) s) = mainLoop s
     \<and> requests (resume e k (tasks s ! k) s) = requests s
     \<and> (if tasks s ! k = Settled
         then activeDownloads (resume e k (tasks s ! k) s) = activeDownloads s - 1
              \<and> length (tasks (resume e k (tasks s ! k) s)) = length (tasks s) - 1
         else activeDownloads (resume e k (tasks s ! k) s) = activeDownloads s
              \<and> length (tasks (resume e k (tasks s ! k) s)) = length (tasks s))"
proof (cases "tasks s ! k")
  case (AwaitReadFile it fp)
  show ?thesis
  proof (cases "files s fp")
    case None
    with AwaitReadFile show ?thesis by (simp add: cssFailed_def)
  next
    case (Some content)
    show ?thesis
    proof (cases "rewriteCSS e fp (url it) (utf8 e content) s")
      case None
      with Some AwaitReadFile show ?thesis by (simp add: cssFailed_def)
    next
      case (Some r)
      obtain t' s' where r: "r = (t', s')" by (cases r)
      obtain new where "s' = s\<lparr>downloadQueue := downloadQueue s @ new\<rparr>"
        using rewriteCSS_frame [of e fp "url it" "utf8 e content" s t' s'] Some r by auto
      with Some r \<open>files s fp = Some content\<close> AwaitReadFile show ?thesis by simp
    qed
  qed
qed (use assms in \<open>auto simp: assetFailed_def cssFailed_def split: option.splits\<close>)

lemma step_max: "step e ev s = Some t \<Longrightarrow> maxConcurrent t = maxConcurrent s"
  by (cases ev) (auto simp: loopIteration_def downloadAssetStart_def resume_counts split: if_splits)

lemma step_counted:
  assumes "step e ev s = Some t" and "activeDownloads s = int (length (tasks s))"
  shows "activeDownloads t = int (length (tasks t))"
proof (cases ev)
  case (Resume k)
  with assms(1) have k: "k < length (tasks s)" and t: "t = tick (resume e k (tasks s ! k) s)"
    by (auto split: if_splits)
  show ?thesis using resume_counts [OF k, of e] assms(2) k unfolding t
    by (cases "tasks s ! k = Settled") auto
qed (use assms in \<open>auto simp: loopIteration_def downloadAssetStart_def split: if_splits\<close>)

lemma step_bound:
  assumes "step e ev s = Some t" and "activeDownloads s \<le> maxConcurrent s"
  shows "activeDownloads t \<le> maxConcurrent t"
proof (cases ev)
  case (Resume k)
  with assms(1) have k: "k < length (tasks s)" and t: "t = tick (resume e k (tasks s ! k) s)"
    by (auto split: if_splits)
  show ?thesis using resume_counts [OF k, of e] assms(2) unfolding t
    by (cases "tasks s ! k = Settled") auto
qed (use assms in \<open>auto simp: loopIteration_def downloadAssetStart_def split: if_splits\<close>)

lemma step_fetch:
  assumes "step e ev s = Some t" and "requests t \<noteq> requests s"
  shows "ev = Loop \<and> downloadQueue s \<noteq> [] \<and> activeDownloads s < maxConcurrent s
         \<and> requests t = requests s @ [url (hd (downloadQueue s))]
         \<and> url (hd (downloadQueue s)) \<notin> downloadedFiles s"
proof (cases ev)
  case (Resume k)
  with assms(1) have k: "k < length (tasks s)" and t: "t = tick (resume e k (tasks s ! k) s)"
    by (auto split: if_splits)
  show ?thesis using resume_counts [OF k, of e] assms(2) unfolding t by simp
qed (use assms in \<open>auto simp: loopIteration_def downloadAssetStart_def split: if_splits\<close>)

lemma run_invariant:
  assumes "run e evs s = Some t"
    and "activeDownloads s = int (length (tasks s))" and "activeDownloads s \<le> maxConcurrent s"
  shows "activeDownloads t = int (length (tasks t)) \<and> activeDownloads t \<le> maxConcurrent t
         \<and> maxConcurrent t = maxConcurrent s"
  using assms
proof (induction evs arbitrary: s)
  case Nil
  then show ?case by simp
next
  case (Cons ev evs)
  then obtain s1 where s1: "step e ev s = Some s1" "run e evs s1 = Some t"
    by (auto split: option.splits)
  show ?case
    using Cons.IH [OF s1(2)] step_counted [OF s1(1)] step_bound [OF s1(1)] step_max [OF s1(1)] Cons.prems
    by simp
qed

lemma length_filter_int: "int (length (filter P xs)) \<le> int (length xs)"
  by simp

lemma ex_constructed:
  "WebsiteCloner (exEnv page net) Map.empty ''https://ex.test/'' ''out'' = Some exCloner"
  by (simp add: WebsiteCloner_def ex_simps)

text \<open>
  C3. In every state that \<^verbatim>\<open>clone\<close> reaches while it processes the queue, whatever the
  schedule, the downloads whose request is in flight are at most \<^verbatim>\<open>activeDownloads\<close>,
  which is at most \<^verbatim>\<open>maxConcurrent\<close>, the 5 of the constructor; and a step that issues
  a request starts from a state where \<^verbatim>\<open>activeDownloads\<close> is below \<^verbatim>\<open>maxConcurrent\<close>.
\<close>

theorem bounded_concurrency:
  assumes "WebsiteCloner e fs b out = Some c" and "run e evs (beforeQueue e c) = Some s"
  shows "int (length (filter fetching (tasks s))) \<le> activeDownloads s
     \<and> activeDownloads s \<le> maxConcurrent s \<and> maxConcurrent s = 5
     \<and> (\<forall>ev t. step e ev s = Some t \<longrightarrow> requests t \<noteq> requests s
           \<longrightarrow> activeDownloads s < maxConcurrent s)"
proof -
  have inv: "activeDownloads s = int (length (tasks s))" "activeDownloads s \<le> maxConcurrent s"
     "maxConcurrent s = 5"
    using run_invariant [OF assms(2)] beforeQueue_start [OF assms(1)] by simp_all
  have "activeDownloads s < maxConcurrent s" if "step e ev s = Some t" "requests t \<noteq> requests s" for ev t
    using step_fetch [OF that] by simp
  with inv show ?thesis by (simp add: length_filter_int)
qed

lemma exSite_two_admitted:
  "\<exists>s. run exSite [Loop, Loop] (beforeQueue exSite exCloner) = Some s
       \<and> length (filter fetching (tasks s)) = 2 \<and> downloadQueue s = []
       \<and> mainLoop s = Running"
  by (simp add: eval_simps)

theorem bounded_concurrency_witness:
  "WebsiteCloner exSite Map.empty ''https://ex.test/'' ''out'' = Some exCloner
   \<and> (case run exSite [Loop, Loop] (beforeQueue exSite exCloner) of
         None \<Rightarrow> False
       | Some s \<Rightarrow> length (filter fetching (tasks s)) = 2 \<and> 2 \<le> activeDownloads s
                   \<and> activeDownloads s \<le> 5
                   \<and> map_option mainLoop (step exSite Loop s) = Some Sleeping)"
proof -
  have c: "WebsiteCloner exSite Map.empty ''https://ex.test/'' ''out'' = Some exCloner"
    unfolding exSite_def by (rule ex_constructed)
  obtain s where s: "run exSite [Loop, Loop] (beforeQueue exSite exCloner) = Some s"
      "length (filter fetching (tasks s)) = 2" "downloadQueue s = []" and m: "mainLoop s = Running"
    using exSite_two_admitted by blast
  from bounded_concurrency [OF c s(1)] s(2)
  have "2 \<le> activeDownloads s" "activeDownloads s \<le> 5" by simp_all
  then show ?thesis using c s m by (simp del: run.simps add: loopIteration_def)
qed

subsection \<open>Draining to a fixpoint\<close>

lemma run_append:
  "run e (xs @ ys) s = (case run e xs s of None \<Rightarrow> None | Some s1 \<Rightarrow> run e ys s1)"
  by (induction xs arbitrary: s) (auto split: option.splits)

lemma run_split:
  assumes "run e evs s = Some t" and "run e (take n evs) s = Some s1"
  shows "run e (drop n evs) s1 = Some t"
  using assms run_append [of e "take n evs" "drop n evs" s] by simp

text \<open>What a resumed task changes of the queue, the set, the requests and the tasks.\<close>

lemma set_remove: "set (take k xs @ drop (Suc k) xs) \<subseteq> set xs"
  by (auto dest: in_set_takeD in_set_dropD)

lemma resume_effect:
  assumes k: "k < length (tasks s)"
  shows "(\<exists>new. downloadQueue (resume e k (tasks s ! k) s) = downloadQueue s @ new
              \<and> (\<forall>it \<in> set new. url it \<notin> downloadedFiles s))
     \<and> downloadedFiles s \<subseteq> downloadedFiles (resume e k (tasks s ! k) s)
     \<and> (\<forall>u \<in> downloadedFiles (resume e k (tasks s ! k) s). u \<in> downloadedFiles s \<or> taskUrl (tasks s ! k) = Some u)
     \<and> (\<forall>tk \<in> set (tasks (resume e k (tasks s ! k) s)).
           tk \<in> set (tasks s) \<or> taskUrl tk = None \<or> taskUrl tk = taskUrl (tasks s ! k))"
proof (cases "tasks s ! k")
  case (AwaitReadFile it fp)
  show ?thesis
  proof (cases "files s fp")
    case None
    with AwaitReadFile show ?thesis by (auto simp: cssFailed_def dest: set_update_subset_insert [THEN subsetD])
  next
    case (Some content)
    show ?thesis
    proof (cases "rewriteCSS e fp (url it) (utf8 e content) s")
      case None
      with Some AwaitReadFile show ?thesis
        by (auto simp: cssFailed_def dest: set_update_subset_insert [THEN subsetD])
    next
      case (Some r)
      obtain t' s' where r: "r = (t', s')" by (cases r)
      obtain new where "s' = s\<lparr>downloadQueue := downloadQueue s @ new\<rparr>"
          "\<forall>it \<in> set new. url it \<notin> downloadedFiles s"
        using rewriteCSS_frame [of e fp "url it" "utf8 e content" s t' s'] Some r by auto
      with Some r \<open>files s fp = Some content\<close> AwaitReadFile show ?thesis
        by (auto dest: set_update_subset_insert [THEN subsetD])
    qed
  qed
next
  case Settled
  then show ?thesis using set_remove [of k "tasks s"] by auto
qed (auto simp: assetFailed_def cssFailed_def split: option.splits
       dest: set_update_subset_insert [THEN subsetD])

lemma step_queue:
  assumes "step e ev s = Some t" and "it \<in> set (downloadQueue s)"
  shows "it \<in> set (downloadQueue t) \<or> url it \<in> set (requests t) \<union> downloadedFiles t"
proof (cases ev)
  case Loop
  have "it = hd (downloadQueue s) \<or> it \<in> set (tl (downloadQueue s))"
    using assms(2) by (cases "downloadQueue s") auto
  with assms Loop show ?thesis
    by (auto simp: loopIteration_def downloadAssetStart_def split: if_splits)
next
  case Timer
  with assms show ?thesis by (auto split: if_splits)
next
  case (Resume k)
  with assms(1) have k: "k < length (tasks s)" and t: "t = tick (resume e k (tasks s ! k) s)"
    by (auto split: if_splits)
  show ?thesis using resume_effect [OF k, of e] assms(2) unfolding t by auto
qed

lemma step_mono:
  assumes "step e ev s = Some t"
  shows "set (requests s) \<subseteq> set (requests t) \<and> downloadedFiles s \<subseteq> downloadedFiles t"
proof (cases ev)
  case (Resume k)
  with assms(1) have k: "k < length (tasks s)" and t: "t = tick (resume e k (tasks s ! k) s)"
    by (auto split: if_splits)
  show ?thesis using resume_effect [OF k, of e] resume_counts [OF k, of e] unfolding t by auto
qed (use assms in \<open>auto simp: loopIteration_def downloadAssetStart_def split: if_splits\<close>)

lemma run_mono:
  "run e evs s = Some t \<Longrightarrow>
   set (requests s) \<subseteq> set (requests t) \<and> downloadedFiles s \<subseteq> downloadedFiles t"
proof (induction evs arbitrary: s)
  case Nil
  then show ?case by simp
next
  case (Cons ev evs)
  then obtain s1 where s1: "step e ev s = Some s1" "run e evs s1 = Some t"
    by (auto split: option.splits)
  show ?case using Cons.IH [OF s1(2)] step_mono [OF s1(1)] by blast
qed

lemma run_queue:
  "run e evs s = Some t \<Longrightarrow> it \<in> set (downloadQueue s) \<Longrightarrow>
   it \<in> set (downloadQueue t) \<or> url it \<in> set (requests t) \<union> downloadedFiles t"
proof (induction evs arbitrary: s)
  case Nil
  then show ?case by simp
next
  case (Cons ev evs)
  then obtain s1 where s1: "step e ev s = Some s1" "run e evs s1 = Some t"
    by (auto split: option.splits)
  from step_queue [OF s1(1) Cons.prems(2)] show ?case
  proof
    assume "it \<in> set (downloadQueue s1)"
    then show ?thesis using Cons.IH [OF s1(2)] by simp
  next
    assume "url it \<in> set (requests s1) \<union> downloadedFiles s1"
    then show ?thesis using run_mono [OF s1(2)] by blast
  qed
qed

text \<open>Every URL of a task and of the set has been requested.\<close>

lemma step_requested:
  assumes "step e ev s = Some t"
    and "\<forall>tk \<in> set (tasks s). \<forall>u. taskUrl tk = Some u \<longrightarrow> u \<in> set (requests s)"
    and "downloadedFiles s \<subseteq> set (requests s)"
  shows "(\<forall>tk \<in> set (tasks t). \<forall>u. taskUrl tk = Some u \<longrightarrow> u \<in> set (requests t))
     \<and> downloadedFiles t \<subseteq> set (requests t)"
proof (cases ev)
  case (Resume k)
  with assms(1) have k: "k < length (tasks s)" and t: "t = tick (resume e k (tasks s ! k) s)"
    by (auto split: if_splits)
  have kk: "tasks s ! k \<in> set (tasks s)" using k by simp
  have r: "requests t = requests s" using resume_counts [OF k, of e] t by simp
  show ?thesis
  proof (intro conjI ballI allI impI subsetI)
    fix tk u assume tk: "tk \<in> set (tasks t)" "taskUrl tk = Some u"
    then have "tk \<in> set (tasks s) \<or> taskUrl tk = taskUrl (tasks s ! k)"
      using resume_effect [OF k, of e] unfolding t by auto
    then show "u \<in> set (requests t)" using assms(2) tk(2) kk unfolding r by metis
  next
    fix u assume "u \<in> downloadedFiles t"
    then have "u \<in> downloadedFiles s \<or> taskUrl (tasks s ! k) = Some u"
      using resume_effect [OF k, of e] unfolding t by auto
    then show "u \<in> set (requests t)" using assms(2,3) kk unfolding r by auto
  qed
qed (use assms in \<open>auto simp: loopIteration_def downloadAssetStart_def split: if_splits\<close>)

lemma step_exited:
  assumes "step e ev s = Some t" and "activeDownloads s = int (length (tasks s))"
    and "mainLoop s \<noteq> Exited" and "mainLoop t = Exited"
  shows "downloadQueue t = [] \<and> tasks t = []"
proof (cases ev)
  case (Resume k)
  with assms(1) have k: "k < length (tasks s)" and t: "t = tick (resume e k (tasks s ! k) s)"
    by (auto split: if_splits)
  show ?thesis using resume_counts [OF k, of e] assms(3,4) unfolding t by simp
qed (use assms in \<open>auto simp: loopIteration_def downloadAssetStart_def split: if_splits\<close>)

lemma step_from_exited: "mainLoop s = Exited \<Longrightarrow> step e ev s = None"
  by (cases ev) auto

lemma run_exited:
  assumes "run e evs s = Some t" and "activeDownloads s = int (length (tasks s))"
    and "mainLoop s \<noteq> Exited" and "mainLoop t = Exited"
  shows "downloadQueue t = [] \<and> tasks t = []"
  using assms
proof (induction evs arbitrary: s)
  case Nil
  then show ?case by simp
next
  case (Cons ev evs)
  then obtain s1 where s1: "step e ev s = Some s1" "run e evs s1 = Some t"
    by (auto split: option.splits)
  show ?case
  proof (cases "mainLoop s1 = Exited")
    case True
    then have "evs = []" using s1(2) step_from_exited [of s1 e] by (cases evs) auto
    with s1 have "t = s1" by simp
    then show ?thesis using step_exited [OF s1(1) Cons.prems(2,3)] True by simp
  next
    case False
    then show ?thesis
      using Cons.IH [OF s1(2) step_counted [OF s1(1) Cons.prems(2)]] Cons.prems(4) by simp
  qed
qed

lemma run_requested:
  assumes "run e evs s = Some t"
    and "\<forall>tk \<in> set (tasks s). \<forall>u. taskUrl tk = Some u \<longrightarrow> u \<in> set (requests s)"
    and "downloadedFiles s \<subseteq> set (requests s)"
  shows "downloadedFiles t \<subseteq> set (requests t)
     \<and> (\<forall>tk \<in> set (tasks t). \<forall>u. taskUrl tk = Some u \<longrightarrow> u \<in> set (requests t))"
  using assms
proof (induction evs arbitrary: s)
  case Nil
  then show ?case by simp
next
  case (Cons ev evs)
  then obtain s1 where s1: "step e ev s = Some s1" "run e evs s1 = Some t"
    by (auto split: option.splits)
  show ?case
    using Cons.IH [OF s1(2)] step_requested [OF s1(1) Cons.prems(2,3)] by blast
qed

lemma step_enqueue:
  assumes "step e ev s = Some t" and "activeDownloads s = int (length (tasks s))"
    and "\<not> set (downloadQueue t) \<subseteq> set (downloadQueue s)"
  shows "0 < activeDownloads s \<and> activeDownloads t = activeDownloads s"
proof (cases ev)
  case Loop
  have "set (tl (downloadQueue s)) \<subseteq> set (downloadQueue s)"
    by (cases "downloadQueue s") auto
  with assms Loop show ?thesis
    by (auto simp: loopIteration_def downloadAssetStart_def split: if_splits)
next
  case Timer
  with assms show ?thesis by (auto split: if_splits)
next
  case (Resume k)
  with assms(1) have k: "k < length (tasks s)" and t: "t = tick (resume e k (tasks s ! k) s)"
    by (auto split: if_splits)
  have "tasks s ! k \<noteq> Settled" using assms(3) unfolding t by auto
  then show ?thesis using resume_counts [OF k, of e] assms(2) k unfolding t by auto
qed

text \<open>
  C4. \<^verbatim>\<open>processDownloadQueue\<close> returns only in a state where the queue is empty and
  \<^verbatim>\<open>activeDownloads\<close> is zero, no download being in flight. Every item that was in the
  queue at any moment of the run (\<open>s'\<close> is the state after the first \<open>n\<close> events), also
  one that a stylesheet enqueued during the run, has had its URL requested by then. A
  step that enqueues happens while \<^verbatim>\<open>activeDownloads\<close> is positive and does not change
  it: the download of the stylesheet is still counted.
\<close>

theorem fixpoint_drain:
  assumes "WebsiteCloner e fs b out = Some c"
    and "run e evs (beforeQueue e c) = Some s" and "mainLoop s = Exited"
    and "run e (take n evs) (beforeQueue e c) = Some s'"
  shows "downloadQueue s = [] \<and> activeDownloads s = 0 \<and> tasks s = []
     \<and> (\<forall>it \<in> set (downloadQueue s'). url it \<in> set (requests s))
     \<and> (\<forall>ev t. step e ev s' = Some t \<longrightarrow> \<not> set (downloadQueue t) \<subseteq> set (downloadQueue s')
           \<longrightarrow> 0 < activeDownloads s' \<and> activeDownloads t = activeDownloads s')"
proof -
  let ?s0 = "beforeQueue e c"
  note start = beforeQueue_start [OF assms(1)]
  have c0: "activeDownloads ?s0 = int (length (tasks ?s0))" "activeDownloads ?s0 \<le> maxConcurrent ?s0"
    using start by simp_all
  have inv: "activeDownloads s = int (length (tasks s))"
    using run_invariant [OF assms(2) c0] by simp
  have inv': "activeDownloads s' = int (length (tasks s'))"
    using run_invariant [OF assms(4) c0] by simp
  have ex: "downloadQueue s = []" "tasks s = []"
    using run_exited [OF assms(2) c0(1) _ assms(3)] start by simp_all
  have req: "downloadedFiles s \<subseteq> set (requests s)"
    using run_requested [OF assms(2)] start by simp
  have rest: "run e (drop n evs) s' = Some s"
    by (rule run_split [OF assms(2,4)])
  have "url it \<in> set (requests s)" if "it \<in> set (downloadQueue s')" for it
    using run_queue [OF rest that] ex(1) req by auto
  moreover have "0 < activeDownloads s' \<and> activeDownloads t = activeDownloads s'"
    if "step e ev s' = Some t" "\<not> set (downloadQueue t) \<subseteq> set (downloadQueue s')" for ev t
    using step_enqueue [OF that(1) inv' that(2)] .
  ultimately show ?thesis using ex inv by auto
qed

lemma exSite_run:
  "\<exists>s. run exSite exSchedule (beforeQueue exSite exCloner) = Some s \<and> mainLoop s = Exited
       \<and> requests s = [''https://ex.test/'', ''https://ex.test/s.css'', ''https://ex.test/pic.png'',
              ''https://ex.test/bg.png'']
       \<and> files s ''out/s.css'' = Some (''body{background:url('' @ [CHR 0x22] @ ''bg.png'' @ [CHR 0x22] @ '')}'')"
  by (simp add: eval_simps)

lemma exSite_prefix:
  "\<exists>s. run exSite (take 7 exSchedule) (beforeQueue exSite exCloner) = Some s
       \<and> downloadQueue s = [exBg] \<and> activeDownloads s = 2"
  by (simp add: eval_simps)

theorem fixpoint_drain_witness:
  "WebsiteCloner exSite Map.empty ''https://ex.test/'' ''out'' = Some exCloner
   \<and> (case run exSite (take 7 exSchedule) (beforeQueue exSite exCloner) of
         None \<Rightarrow> False
       | Some s' \<Rightarrow> exBg \<in> set (downloadQueue s'))
   \<and> (case run exSite exSchedule (beforeQueue exSite exCloner) of
         None \<Rightarrow> False
       | Some s \<Rightarrow> mainLoop s = Exited \<and> downloadQueue s = [] \<and> activeDownloads s = 0
                   \<and> url exBg \<in> set (requests s))"
proof -
  have c: "WebsiteCloner exSite Map.empty ''https://ex.test/'' ''out'' = Some exCloner"
    unfolding exSite_def by (rule ex_constructed)
  obtain s where s: "run exSite exSchedule (beforeQueue exSite exCloner) = Some s" "mainLoop s = Exited"
    using exSite_run by blast
  obtain s' where s': "run exSite (take 7 exSchedule) (beforeQueue exSite exCloner) = Some s'"
      "downloadQueue s' = [exBg]"
    using exSite_prefix by blast
  from fixpoint_drain [OF c s s'(1)] s'(2)
  have "downloadQueue s = []" "activeDownloads s = 0" "url exBg \<in> set (requests s)" by simp_all
  then show ?thesis using c s s' by simp
qed

subsection \<open>A download that fails\<close>

lemma resume_fails:
  assumes "fails e (now s) (tasks s ! k)"
  shows "\<exists>u. taskUrl (tasks s ! k) = Some u
     \<and> resume e k (tasks s ! k) s
         = s\<lparr>console := console s @ [LogAssetError u], tasks := (tasks s)[k := Settled]\<rparr>"
  using assms by (cases "tasks s ! k") (auto simp: assetFailed_def)

lemma resume_settled:
  "resume e k Settled (s\<lparr>console := l, tasks := (tasks s)[k := Settled], now := n\<rparr>)
   = s\<lparr>activeDownloads := activeDownloads s - 1, console := l,
       tasks := take k (tasks s) @ drop (Suc k) (tasks s), now := n\<rparr>"
  by simp

lemma resume_next:
  assumes k: "k < length (tasks s)" and "tasks s ! k \<noteq> Settled"
  shows "stepsLeft (tasks (resume e k (tasks s ! k) s) ! k) < stepsLeft (tasks s ! k)
     \<and> take k (tasks (resume e k (tasks s ! k) s)) = take k (tasks s)
     \<and> drop (Suc k) (tasks (resume e k (tasks s ! k) s)) = drop (Suc k) (tasks s)"
proof (cases "tasks s ! k")
  case (AwaitReadFile it fp)
  show ?thesis
  proof (cases "files s fp")
    case None
    with AwaitReadFile k show ?thesis by (simp add: cssFailed_def)
  next
    case (Some content)
    show ?thesis
    proof (cases "rewriteCSS e fp (url it) (utf8 e content) s")
      case None
      with Some AwaitReadFile k show ?thesis by (simp add: cssFailed_def)
    next
      case (Some r)
      obtain t' s' where r: "r = (t', s')" by (cases r)
      obtain new where "s' = s\<lparr>downloadQueue := downloadQueue s @ new\<rparr>"
        using rewriteCSS_frame [of e fp "url it" "utf8 e content" s t' s'] Some r by auto
      with Some r \<open>files s fp = Some content\<close> AwaitReadFile k show ?thesis by simp
    qed
  qed
qed (use assms in \<open>auto simp: assetFailed_def cssFailed_def split: option.splits\<close>)

lemma stepsLeft_pos: "0 < stepsLeft t" and stepsLeft_le: "stepsLeft t \<le> 6"
  by (cases t; simp)+

lemma resume_progress:
  "stepsLeft (tasks s ! k) \<le> m \<Longrightarrow> k < length (tasks s) \<Longrightarrow> mainLoop s = Sleeping \<Longrightarrow>
   \<exists>n t. 0 < n \<and> n \<le> m \<and> run e (replicate n (Resume k)) s = Some t
     \<and> activeDownloads t = activeDownloads s - 1
     \<and> tasks t = take k (tasks s) @ drop (Suc k) (tasks s)"
proof (induction m arbitrary: s)
  case 0
  then show ?case using stepsLeft_pos [of "tasks s ! k"] by simp
next
  case (Suc m)
  let ?r = "resume e k (tasks s ! k) s"
  let ?s1 = "tick ?r"
  have st: "step e (Resume k) s = Some ?s1" using Suc.prems by simp
  have tk: "tasks ?s1 = tasks ?r" "activeDownloads ?s1 = activeDownloads ?r"
      "mainLoop ?s1 = mainLoop ?r"
    by (simp_all add: tick_def)
  show ?case
  proof (cases "tasks s ! k = Settled")
    case True
    then have "run e (replicate 1 (Resume k)) s = Some ?s1
        \<and> activeDownloads ?s1 = activeDownloads s - 1
        \<and> tasks ?s1 = take k (tasks s) @ drop (Suc k) (tasks s)"
      using Suc.prems by (simp add: tick_def)
    then show ?thesis by (intro exI [of _ 1] exI [of _ ?s1]) simp
  next
    case False
    note nx = resume_next [OF Suc.prems(2) False, of e]
    note ct = resume_counts [OF Suc.prems(2), of e]
    have "stepsLeft (tasks ?s1 ! k) \<le> m" using nx Suc.prems(1) tk by simp
    moreover have "k < length (tasks ?s1)" using ct False Suc.prems(2) tk by simp
    moreover have "mainLoop ?s1 = Sleeping" using ct Suc.prems(3) tk by simp
    ultimately obtain n t where nt: "0 < n" "n \<le> m" "run e (replicate n (Resume k)) ?s1 = Some t"
        "activeDownloads t = activeDownloads ?s1 - 1"
        "tasks t = take k (tasks ?s1) @ drop (Suc k) (tasks ?s1)"
      using Suc.IH [of ?s1] by blast
    have "run e (replicate (Suc n) (Resume k)) s = Some t"
      using st nt(3) by simp
    moreover have "activeDownloads t = activeDownloads s - 1" using nt(4) ct False tk by simp
    moreover have "tasks t = take k (tasks s) @ drop (Suc k) (tasks s)" using nt(5) nx tk by simp
    ultimately show ?thesis using nt(2) by (intro exI [of _ "Suc n"] exI [of _ t]) simp
  qed
qed

text \<open>
  C8. Task \<open>k\<close> resumes while the loop sleeps. When the operation it awaits fails then
  (the request, \<^verbatim>\<open>ensureDir\<close> or \<^verbatim>\<open>writeFile\<close>), the step adds one error line to the log
  and settles the task, and the next step of the task is the \<^verbatim>\<open>finally\<close> callback:
  after the two, \<^verbatim>\<open>activeDownloads\<close> is one less, the task is gone, and the queue (the
  item is not put back), the set, the files and the other tasks are as they were.
  Whatever the task awaits and however it goes, at most six steps of the task bring
  \<^verbatim>\<open>activeDownloads\<close> down by one and leave the other tasks in place.
\<close>

theorem asset_failure_dropped:
  assumes "mainLoop s = Sleeping" and "k < length (tasks s)"
  shows "(fails e (now s) (tasks s ! k) \<longrightarrow>
           (\<exists>u. taskUrl (tasks s ! k) = Some u
              \<and> step e (Resume k) s
                  = Some (s\<lparr>console := console s @ [LogAssetError u],
                            tasks := (tasks s)[k := Settled], now := now s + 1\<rparr>)
              \<and> run e [Resume k, Resume k] s
                  = Some (s\<lparr>activeDownloads := activeDownloads s - 1,
                            console := console s @ [LogAssetError u],
                            tasks := take k (tasks s) @ drop (Suc k) (tasks s),
                            now := now s + 2\<rparr>)))
     \<and> (\<exists>n t. 0 < n \<and> n \<le> 6 \<and> run e (replicate n (Resume k)) s = Some t
           \<and> activeDownloads t = activeDownloads s - 1
           \<and> tasks t = take k (tasks s) @ drop (Suc k) (tasks s))"
proof (intro conjI impI)
  assume f: "fails e (now s) (tasks s ! k)"
  then obtain u where u: "taskUrl (tasks s ! k) = Some u"
    "resume e k (tasks s ! k) s = s\<lparr>console := console s @ [LogAssetError u], tasks := (tasks s)[k := Settled]\<rparr>"
    using resume_fails by blast
  let ?s1 = "s\<lparr>console := console s @ [LogAssetError u], tasks := (tasks s)[k := Settled],
                now := now s + 1\<rparr>"
  have 1: "step e (Resume k) s = Some ?s1" using assms u(2) by (simp add: tick_def)
  have "step e (Resume k) ?s1 = Some (tick (resume e k Settled ?s1))" using assms by simp
  then have 2: "run e [Resume k, Resume k] s
     = Some (s\<lparr>activeDownloads := activeDownloads s - 1,
                            console := console s @ [LogAssetError u],
                            tasks := take k (tasks s) @ drop (Suc k) (tasks s),
                            now := now s + 2\<rparr>)"
    using 1 by (simp del: step.simps add: resume_settled tick_def)
  show "\<exists>u. taskUrl (tasks s ! k) = Some u
              \<and> step e (Resume k) s
                  = Some (s\<lparr>console := console s @ [LogAssetError u],
                            tasks := (tasks s)[k := Settled], now := now s + 1\<rparr>)
              \<and> run e [Resume k, Resume k] s
                  = Some (s\<lparr>activeDownloads := activeDownloads s - 1,
                            console := console s @ [LogAssetError u],
                            tasks := take k (tasks s) @ drop (Suc k) (tasks s),
                            now := now s + 2\<rparr>)"
    using u(1) 1 2 by blast
next
  show "\<exists>n t. 0 < n \<and> n \<le> 6 \<and> run e (replicate n (Resume k)) s = Some t
           \<and> activeDownloads t = activeDownloads s - 1
           \<and> tasks t = take k (tasks s) @ drop (Suc k) (tasks s)"
    using resume_progress [OF stepsLeft_le assms(2,1)] .
qed

lemma exBroken_sleeping:
  "\<exists>s. run exBroken [Loop, Loop, Loop] (beforeQueue exBroken exCloner) = Some s
       \<and> mainLoop s = Sleeping \<and> length (tasks s) = 2 \<and> tasks s ! 1 = AwaitGet exPic
       \<and> activeDownloads s = 2"
  by (simp add: eval_simps)

theorem asset_failure_dropped_witness:
  "(case run exBroken [Loop, Loop, Loop] (beforeQueue exBroken exCloner) of
      None \<Rightarrow> False
    | Some s \<Rightarrow> mainLoop s = Sleeping \<and> 1 < length (tasks s) \<and> fails exBroken (now s) (tasks s ! 1)
        \<and> run exBroken [Resume 1, Resume 1] s
            = Some (s\<lparr>activeDownloads := 1,
                      console := console s @ [LogAssetError ''https://ex.test/pic.png''],
                      tasks := take 1 (tasks s), now := now s + 2\<rparr>))"
proof -
  obtain s where s: "run exBroken [Loop, Loop, Loop] (beforeQueue exBroken exCloner) = Some s"
      "mainLoop s = Sleeping" "length (tasks s) = 2" "tasks s ! 1 = AwaitGet exPic"
      "activeDownloads s = 2"
    using exBroken_sleeping by blast
  have k: "1 < length (tasks s)" using s(3) by simp
  have f: "fails exBroken (now s) (tasks s ! 1)" unfolding s(4) by (simp add: ex_simps)
  from asset_failure_dropped [OF s(2) k, of exBroken] f
  obtain u where u: "taskUrl (tasks s ! 1) = Some u"
    and r: "run exBroken [Resume 1, Resume 1] s
     = Some (s\<lparr>activeDownloads := activeDownloads s - 1,
               console := console s @ [LogAssetError u],
               tasks := take 1 (tasks s) @ drop (Suc 1) (tasks s), now := now s + 2\<rparr>)"
    by blast
  have "u = ''https://ex.test/pic.png''" using u unfolding s(4) by (simp add: exPic_def)
  moreover have "drop (Suc 1) (tasks s) = []" using s(3) by simp
  ultimately have "run exBroken [Resume 1, Resume 1] s
     = Some (s\<lparr>activeDownloads := 1,
               console := console s @ [LogAssetError ''https://ex.test/pic.png''],
               tasks := take 1 (tasks s), now := now s + 2\<rparr>)"
    using r s(5) by simp
  then show ?thesis using s(1,2) k f by (simp del: run.simps)
qed

section \<open>The Orchestrator: proofs\<close>

lemma run_idle:
  assumes "downloadQueue s = []" and "activeDownloads s = 0" and "mainLoop s = Running"
    and "run e evs s = Some t"
  shows "evs = [] \<and> t = s \<or> evs = [Loop] \<and> t = s\<lparr>mainLoop := Exited, now := now s + 1\<rparr>"
proof (cases evs)
  case Nil
  with assms show ?thesis by simp
next
  case (Cons ev rest)
  with assms(4) obtain s1 where s1: "step e ev s = Some s1" "run e rest s1 = Some t"
    by (auto split: option.splits)
  from s1(1) assms(1-3) have ev: "ev = Loop" "s1 = s\<lparr>mainLoop := Exited, now := now s + 1\<rparr>"
    by (cases ev; auto simp: loopIteration_def tick_def)+
  then have "rest = []" using s1(2) step_from_exited [of s1 e] by (cases rest) auto
  with s1 ev Cons show ?thesis by simp
qed

text \<open>
  C2, as amended. When the request for the entry page fails (it is issued one unit of
  time after \<^verbatim>\<open>ensureDir\<close> has made the output directory), \<^verbatim>\<open>downloadPage\<close> logs the
  error and returns; the queue is empty, \<^verbatim>\<open>processDownloadQueue\<close> returns at its
  first test, and \<^verbatim>\<open>clone\<close> resolves after logging that the cloning is completed.
  Whatever the schedule, \<^verbatim>\<open>clone\<close> is not rejected, the only request is the one for the
  entry page, and no file is written.
\<close>

theorem entry_failure_logged:
  assumes "WebsiteCloner e fs b out = Some c" and "canEnsureDir e (now c) out"
    and "httpGet e (now c + 1) (href (baseUrl c)) = None"
  shows "clone e [Loop] c
     = Some (Resolved,
          c\<lparr>requests := [href (baseUrl c)],
            console := [LogStarting (href (baseUrl c)), LogOutputDir out, LogPage (href (baseUrl c)),
                        LogPageError (href (baseUrl c)), LogCompleted, LogSaved out],
            mainLoop := Exited, now := 3\<rparr>)
     \<and> (\<forall>evs r. clone e evs c = Some r \<longrightarrow>
           fst r \<noteq> Rejected \<and> files (snd r) = fs \<and> requests (snd r) = [href (baseUrl c)]
           \<and> downloadQueue (snd r) = [])"
proof -
  from assms(1) obtain u where c: "c = \<lparr>baseUrl = u, outputDir = out, downloadedFiles = {}, downloadQueue = [],
          maxConcurrent = 5, activeDownloads = 0, files = fs, requests = [], console = [],
          tasks = [], mainLoop = Running, now = 0\<rparr>"
    by (auto simp: WebsiteCloner_def split: option.splits)
  let ?s0 = "c\<lparr>requests := [href (baseUrl c)],
            console := [LogStarting (href (baseUrl c)), LogOutputDir out, LogPage (href (baseUrl c)),
                        LogPageError (href (baseUrl c))], now := 2\<rparr>"
  have b: "beforeQueue e c = ?s0"
    using assms(3) by (simp add: beforeQueue_def downloadPage_def pageFailed_def tick_def c)
  have idle: "downloadQueue ?s0 = []" "activeDownloads ?s0 = 0" "mainLoop ?s0 = Running"
    by (simp_all add: c)
  have 1: "clone e [Loop] c
     = Some (Resolved,
          c\<lparr>requests := [href (baseUrl c)],
            console := [LogStarting (href (baseUrl c)), LogOutputDir out, LogPage (href (baseUrl c)),
                        LogPageError (href (baseUrl c)), LogCompleted, LogSaved out],
            mainLoop := Exited, now := 3\<rparr>)"
    using assms(2) unfolding clone_def b by (simp add: c loopIteration_def tick_def)
  have 2: "fst r \<noteq> Rejected \<and> files (snd r) = fs \<and> requests (snd r) = [href (baseUrl c)]
           \<and> downloadQueue (snd r) = []"
    if r: "clone e evs c = Some r" for evs r
  proof -
    from r assms(2) obtain t where t: "run e evs ?s0 = Some t"
        "r = (if mainLoop t = Exited
              then (Resolved, t\<lparr>console := console t @ [LogCompleted, LogSaved (outputDir t)]\<rparr>)
              else (Pending, t))"
      unfolding clone_def b by (auto simp: c split: option.splits if_splits)
    from run_idle [OF idle t(1)] have "t = ?s0 \<or> t = ?s0\<lparr>mainLoop := Exited, now := now ?s0 + 1\<rparr>" by blast
    then show ?thesis using t(2) by (auto simp: c)
  qed
  from 1 2 show ?thesis by blast
qed

theorem entry_failure_logged_witness:
  "WebsiteCloner exDown Map.empty ''https://ex.test/'' ''out'' = Some exCloner
   \<and> canEnsureDir exDown (now exCloner) ''out''
   \<and> httpGet exDown (now exCloner + 1) (href (baseUrl exCloner)) = None
   \<and> map_option (\<lambda>(r, s). (r, requests s, dom (files s), downloadQueue s)) (clone exDown [Loop] exCloner)
       = Some (Resolved, [''https://ex.test/''], {}, [])"
proof -
  have c: "WebsiteCloner exDown Map.empty ''https://ex.test/'' ''out'' = Some exCloner"
    unfolding exDown_def by (rule ex_constructed)
  have d: "canEnsureDir exDown (now exCloner) ''out''"
    and g: "httpGet exDown (now exCloner + 1) (href (baseUrl exCloner)) = None"
    by (simp_all add: ex_simps)
  from entry_failure_logged [OF c d g] show ?thesis
    using c d g by (simp add: ex_simps)
qed

text \<open>
  C2 as it was stated fails: with the entry page down, the promise of \<^verbatim>\<open>clone\<close>
  is resolved, not rejected, and the caller is told nothing.
\<close>

theorem entry_failure_resolved:
  "map_option fst (clone exDown [Loop] exCloner) = Some Resolved"
  by (simp add: clone_def eval_simps)

section \<open>Deduplication: proofs\<close>

lemma step_insert:
  assumes "step e ev c = Some t" and "downloadedFiles t \<noteq> downloadedFiles c"
  shows "\<exists>k it fp data. ev = Resume k \<and> tasks c ! k = AwaitWriteFile it fp data
           \<and> files t fp = Some data \<and> downloadedFiles t = insert (url it) (downloadedFiles c)"
proof (cases ev)
  case (Resume k)
  with assms(1) have k: "k < length (tasks c)" and t: "t = tick (resume e k (tasks c ! k) c)"
    by (auto split: if_splits)
  show ?thesis
  proof (cases "tasks c ! k")
    case (AwaitReadFile it fp)
    show ?thesis
    proof (cases "files c fp")
      case None
      with AwaitReadFile assms(2) show ?thesis unfolding t by (simp add: cssFailed_def)
    next
      case (Some content)
      show ?thesis
      proof (cases "rewriteCSS e fp (url it) (utf8 e content) c")
        case None
        with Some AwaitReadFile assms(2) show ?thesis unfolding t by (simp add: cssFailed_def)
      next
        case (Some r)
        obtain t' s' where r: "r = (t', s')" by (cases r)
        obtain new where "s' = c\<lparr>downloadQueue := downloadQueue c @ new\<rparr>"
          using rewriteCSS_frame [of e fp "url it" "utf8 e content" c t' s'] Some r by auto
        with Some r \<open>files c fp = Some content\<close> AwaitReadFile assms(2) show ?thesis unfolding t by simp
      qed
    qed
  next
    case (AwaitWriteFile it fp data)
    with assms(2) Resume show ?thesis unfolding t
      by (auto simp: assetFailed_def split: if_splits)
  qed (use assms(2) in \<open>auto simp: t assetFailed_def cssFailed_def split: option.splits if_splits\<close>)
qed (use assms in \<open>auto simp: loopIteration_def downloadAssetStart_def split: if_splits\<close>)

lemma step_new_items:
  assumes "step e ev c = Some t" and "it \<in> set (downloadQueue t)"
  shows "it \<in> set (downloadQueue c) \<or> url it \<notin> downloadedFiles c"
proof (cases ev)
  case Loop
  have "set (tl (downloadQueue c)) \<subseteq> set (downloadQueue c)"
    by (cases "downloadQueue c") auto
  with assms Loop show ?thesis
    by (auto simp: loopIteration_def downloadAssetStart_def split: if_splits)
next
  case Timer
  with assms show ?thesis by (auto split: if_splits)
next
  case (Resume k)
  with assms(1) have k: "k < length (tasks c)" and t: "t = tick (resume e k (tasks c ! k) c)"
    by (auto split: if_splits)
  show ?thesis using resume_effect [OF k, of e] assms(2) unfolding t by auto
qed

lemma run_later:
  "run e evs c = Some t \<Longrightarrow>
   (\<exists>new. requests t = requests c @ new \<and> set new \<inter> downloadedFiles c = {})
   \<and> (\<forall>it \<in> set (downloadQueue t). it \<in> set (downloadQueue c) \<or> url it \<notin> downloadedFiles c)"
proof (induction evs arbitrary: c)
  case Nil
  then show ?case by simp
next
  case (Cons ev evs)
  then obtain c1 where c1: "step e ev c = Some c1" "run e evs c1 = Some t"
    by (auto split: option.splits)
  from Cons.IH [OF c1(2)] obtain new where new: "requests t = requests c1 @ new"
      "set new \<inter> downloadedFiles c1 = {}"
    and q: "\<forall>it \<in> set (downloadQueue t). it \<in> set (downloadQueue c1) \<or> url it \<notin> downloadedFiles c1"
    by blast
  have sub: "downloadedFiles c \<subseteq> downloadedFiles c1" using step_mono [OF c1(1)] by blast
  have "\<exists>n1. requests c1 = requests c @ n1 \<and> set n1 \<inter> downloadedFiles c = {}"
  proof (cases "requests c1 = requests c")
    case True
    then show ?thesis by simp
  next
    case False
    from step_fetch [OF c1(1) False] show ?thesis by simp
  qed
  then obtain n1 where n1: "requests c1 = requests c @ n1" "set n1 \<inter> downloadedFiles c = {}"
    by blast
  have "requests t = requests c @ (n1 @ new)" using new(1) n1(1) by simp
  moreover have "set (n1 @ new) \<inter> downloadedFiles c = {}" using new(2) n1(2) sub by auto
  moreover have "\<forall>it \<in> set (downloadQueue t). it \<in> set (downloadQueue c) \<or> url it \<notin> downloadedFiles c"
    using q step_new_items [OF c1(1)] sub by blast
  ultimately show ?case by blast
qed

lemma step_written:
  assumes "step e (Resume k) c = Some c'" and "tasks c ! k = AwaitWriteFile it fp data"
    and "canWrite e (now c) fp"
  shows "files c' fp = Some data \<and> url it \<in> downloadedFiles c'"
  using assms by (auto split: if_splits)

text \<open>
  C1, as amended. \<^verbatim>\<open>processAssets\<close> does not change \<^verbatim>\<open>downloadedFiles\<close>, and the
  items it enqueues are for URLs that are not in it. A step of the scheduler issues a
  request only for the head of the queue, and only if its URL is not in
  \<^verbatim>\<open>downloadedFiles\<close> then; an item that it enqueues is for a URL that is not in it. A
  URL enters \<^verbatim>\<open>downloadedFiles\<close> only in the step that has written the downloaded
  file, and that step puts it there. From then on, whatever runs, the URL stays in
  \<^verbatim>\<open>downloadedFiles\<close>, no request is issued for it and no item is enqueued for it.
\<close>

theorem dedup_at_completion:
  assumes "processAssets e doc pageUrl s = Some (doc', s')"
    and "step e ev c = Some c'" and "run e evs c' = Some t"
  shows "downloadedFiles s' = downloadedFiles s
     \<and> (\<exists>new. downloadQueue s' = downloadQueue s @ new
               \<and> (\<forall>it \<in> set new. url it \<notin> downloadedFiles s))
     \<and> (\<forall>it \<in> set (downloadQueue c'). it \<in> set (downloadQueue c) \<or> url it \<notin> downloadedFiles c)
     \<and> (requests c' = requests c
         \<or> requests c' = requests c @ [url (hd (downloadQueue c))]
            \<and> url (hd (downloadQueue c)) \<notin> downloadedFiles c)
     \<and> (downloadedFiles c' = downloadedFiles c
         \<or> (\<exists>k it fp data. ev = Resume k \<and> tasks c ! k = AwaitWriteFile it fp data
               \<and> files c' fp = Some data
               \<and> downloadedFiles c' = insert (url it) (downloadedFiles c)))
     \<and> (\<forall>k it fp data. ev = Resume k \<longrightarrow> tasks c ! k = AwaitWriteFile it fp data \<longrightarrow>
            canWrite e (now c) fp \<longrightarrow> files c' fp = Some data \<and> url it \<in> downloadedFiles c')
     \<and> downloadedFiles c' \<subseteq> downloadedFiles t
     \<and> (\<exists>new. requests t = requests c' @ new \<and> set new \<inter> downloadedFiles c' = {})
     \<and> (\<forall>it \<in> set (downloadQueue t). it \<in> set (downloadQueue c') \<or> url it \<notin> downloadedFiles c')"
proof -
  obtain new logs where n: "s' = s\<lparr>downloadQueue := downloadQueue s @ new, console := console s @ logs\<rparr>"
      "\<forall>it \<in> set new. url it \<notin> downloadedFiles s"
    using processAssets_frame [OF assms(1)] by blast
  have 1: "downloadedFiles s' = downloadedFiles s" using n(1) by simp
  have 2: "\<exists>new. downloadQueue s' = downloadQueue s @ new
               \<and> (\<forall>it \<in> set new. url it \<notin> downloadedFiles s)"
    using n by auto
  have 3: "requests c' = requests c
         \<or> requests c' = requests c @ [url (hd (downloadQueue c))]
            \<and> url (hd (downloadQueue c)) \<notin> downloadedFiles c"
    using step_fetch [OF assms(2)] by blast
  have 4: "downloadedFiles c' = downloadedFiles c
         \<or> (\<exists>k it fp data. ev = Resume k \<and> tasks c ! k = AwaitWriteFile it fp data
               \<and> files c' fp = Some data
               \<and> downloadedFiles c' = insert (url it) (downloadedFiles c))"
    using step_insert [OF assms(2)] by blast
  have 5: "\<forall>k it fp data. ev = Resume k \<longrightarrow> tasks c ! k = AwaitWriteFile it fp data \<longrightarrow>
            canWrite e (now c) fp \<longrightarrow> files c' fp = Some data \<and> url it \<in> downloadedFiles c'"
    using step_written assms(2) by blast
  have 6: "downloadedFiles c' \<subseteq> downloadedFiles t"
    using run_mono [OF assms(3)] by blast
  have 7: "(\<exists>new. requests t = requests c' @ new \<and> set new \<inter> downloadedFiles c' = {})
     \<and> (\<forall>it \<in> set (downloadQueue t). it \<in> set (downloadQueue c') \<or> url it \<notin> downloadedFiles c')"
    using run_later [OF assms(3)] .
  have 8: "\<forall>it \<in> set (downloadQueue c'). it \<in> set (downloadQueue c) \<or> url it \<notin> downloadedFiles c"
    using step_new_items [OF assms(2)] by blast
  from 1 2 3 4 5 6 7 8 show ?thesis by blast
qed

lemma exShared_assets:
  "\<exists>d s'. processAssets exShared (exLoad exPage) ''https://ex.test/'' exCloner = Some (d, s')
       \<and> map url (downloadQueue s') = [''https://ex.test/s.css'', ''https://ex.test/pic.png'']"
  by (simp add: eval_simps)

lemma exShared_run:
  "\<exists>c c' t. run exShared [Loop, Loop, Loop, Resume 1, Resume 1] (beforeQueue exShared exCloner) = Some c
       \<and> step exShared (Resume 1) c = Some c'
       \<and> run exShared exScheduleShared c' = Some t
       \<and> tasks c ! 1 = AwaitWriteFile exPic ''out/pic.png'' ''PNG1''
       \<and> downloadedFiles c = {''https://ex.test/''}
       \<and> requests c' = [''https://ex.test/'', ''https://ex.test/s.css'', ''https://ex.test/pic.png'']
       \<and> length (requests t) = 3 \<and> downloadQueue c' = [] \<and> mainLoop t = Exited
       \<and> downloadQueue t = []"
  by (simp add: eval_simps)

theorem dedup_at_completion_witness:
  "(case processAssets exShared (exLoad exPage) ''https://ex.test/'' exCloner of
      None \<Rightarrow> False
    | Some (d, s') \<Rightarrow> downloadedFiles s' = {}
        \<and> map url (downloadQueue s') = [''https://ex.test/s.css'', ''https://ex.test/pic.png''])
   \<and> (case run exShared ([Loop, Loop, Loop, Resume 1, Resume 1, Resume 1] @ exScheduleShared)
              (beforeQueue exShared exCloner) of
      None \<Rightarrow> False
    | Some t \<Rightarrow> ''https://ex.test/pic.png'' \<in> downloadedFiles t
        \<and> requests t = [''https://ex.test/'', ''https://ex.test/s.css'', ''https://ex.test/pic.png'']
        \<and> downloadQueue t = [] \<and> mainLoop t = Exited)"
proof -
  from exShared_assets
  obtain d s' where a: "processAssets exShared (exLoad exPage) ''https://ex.test/'' exCloner = Some (d, s')"
      "map url (downloadQueue s') = [''https://ex.test/s.css'', ''https://ex.test/pic.png'']"
    by (elim exE conjE)
  from exShared_run
  obtain c c' t where r: "run exShared [Loop, Loop, Loop, Resume 1, Resume 1] (beforeQueue exShared exCloner) = Some c"
      "step exShared (Resume 1) c = Some c'" "run exShared exScheduleShared c' = Some t"
      "tasks c ! 1 = AwaitWriteFile exPic ''out/pic.png'' ''PNG1''"
      "downloadedFiles c = {''https://ex.test/''}"
      "requests c' = [''https://ex.test/'', ''https://ex.test/s.css'', ''https://ex.test/pic.png'']"
      "length (requests t) = 3" "downloadQueue c' = []" "mainLoop t = Exited" "downloadQueue t = []"
    by (elim exE conjE)
  have w: "canWrite exShared (now c) ''out/pic.png''" by (simp add: ex_simps)
  note th = dedup_at_completion [OF a(1) r(2) r(3)]
  have 1: "downloadedFiles s' = {}" using th [THEN conjunct1] by (simp add: exCloner_def)
  have "files c' ''out/pic.png'' = Some ''PNG1'' \<and> url exPic \<in> downloadedFiles c'"
    using th [THEN conjunct2, THEN conjunct2, THEN conjunct2, THEN conjunct2, THEN conjunct2, THEN conjunct1,
              rule_format, OF refl r(4) w] .
  then have 2: "''https://ex.test/pic.png'' \<in> downloadedFiles c'" by (simp add: exPic_def)
  have 3: "downloadedFiles c' \<subseteq> downloadedFiles t"
    using th [THEN conjunct2, THEN conjunct2, THEN conjunct2, THEN conjunct2, THEN conjunct2, THEN conjunct2,
              THEN conjunct1] .
  obtain new where new: "requests t = requests c' @ new"
    using th [THEN conjunct2, THEN conjunct2, THEN conjunct2, THEN conjunct2, THEN conjunct2, THEN conjunct2,
              THEN conjunct2, THEN conjunct1] by (elim exE conjE)
  with r(6,7) have 4: "requests t = requests c'" by simp
  have "\<forall>it \<in> set (downloadQueue t). it \<in> set (downloadQueue c') \<or> url it \<notin> downloadedFiles c'"
    using th [THEN conjunct2, THEN conjunct2, THEN conjunct2, THEN conjunct2, THEN conjunct2, THEN conjunct2,
              THEN conjunct2, THEN conjunct2] .
  then have 5: "\<forall>it \<in> set (downloadQueue t). url it \<notin> downloadedFiles c'"
    unfolding r(8) by simp
  have run: "run exShared ([Loop, Loop, Loop, Resume 1, Resume 1, Resume 1] @ exScheduleShared)
      (beforeQueue exShared exCloner) = Some t"
    using run_append [of exShared "[Loop, Loop, Loop, Resume 1, Resume 1]" "Resume 1 # exScheduleShared"
        "beforeQueue exShared exCloner"] r(1,2,3)
    by (simp del: step.simps)
  from 2 3 have 6: "''https://ex.test/pic.png'' \<in> downloadedFiles t" by blast
  show ?thesis unfolding run a(1) using a(2) 1 6 4 r(6,9,10) by simp
qed

text \<open>
  C1 as it was stated fails. The page has the same image in two elements. When
  \<^verbatim>\<open>processDownloadQueue\<close> starts, the URL of the image is twice in the queue and not in
  \<^verbatim>\<open>downloadedFiles\<close>; the loop starts both downloads before anything else runs, and by
  the end of the run the URL has been requested twice.
\<close>

theorem same_url_fetched_twice:
  "downloadedFiles (beforeQueue exTwice exCloner) = {''https://ex.test/''}
   \<and> downloadQueue (beforeQueue exTwice exCloner) = [exPic, exPic]
   \<and> map_option (\<lambda>(r, s). (r, requests s)) (clone exTwice exScheduleTwice exCloner)
       = Some (Resolved, [''https://ex.test/'', ''https://ex.test/pic.png'', ''https://ex.test/pic.png''])"
  by (simp add: clone_def eval_simps)

section \<open>The Stylesheet Asset Extractor: proofs\<close>

















end
